theory Spec2Isabelle
  imports Complex_Main "HOL-Library.Sublist"
begin

section \<open>JavaScript string primitives\<close>

text \<open>
  Text is a list of code units. The operations below follow the ECMAScript
  definitions of the \<^verbatim>\<open>String.prototype\<close> methods the sources call:
  \<^verbatim>\<open>indexOf\<close> and \<^verbatim>\<open>lastIndexOf\<close> answer \<open>-1\<close> when the unit does not occur,
  \<^verbatim>\<open>substring\<close> clamps both bounds to the string and swaps them when they are
  out of order.
\<close>

primrec indexOf :: "char \<Rightarrow> string \<Rightarrow> int" where
  "indexOf c [] = -1"
| "indexOf c (x # xs) =
     (if x = c then 0
      else (let r = indexOf c xs in if r = -1 then -1 else r + 1))"

definition lastIndexOf :: "char \<Rightarrow> string \<Rightarrow> int" where
  "lastIndexOf c s =
     (let r = indexOf c (rev s) in if r = -1 then -1 else int (length s) - 1 - r)"

definition clampIndex :: "string \<Rightarrow> int \<Rightarrow> nat" where
  "clampIndex s i = (if i < 0 then 0 else min (nat i) (length s))"

definition substring :: "string \<Rightarrow> int \<Rightarrow> int \<Rightarrow> string" where
  "substring s a b =
     (let a' = clampIndex s a; b' = clampIndex s b;
          lo = min a' b'; hi = max a' b'
      in take (hi - lo) (drop lo s))"

definition substringFrom :: "string \<Rightarrow> int \<Rightarrow> string" where
  "substringFrom s a = drop (clampIndex s a) s"

definition startsWith :: "string \<Rightarrow> char \<Rightarrow> bool" where
  "startsWith s c = (case s of [] \<Rightarrow> False | x # _ \<Rightarrow> x = c)"

section \<open>Reference parser (primitives/references: parseSegmentRef, buildSegmentRef)\<close>

record SegmentRef =
  project :: "string option"
  documentId :: "string option"
  segmentId :: string
  original :: string

text \<open>\<^verbatim>\<open>parseSegmentRef\<close>: \<open>None\<close> is the source's \<^verbatim>\<open>null\<close>.\<close>

definition parseSegmentRef :: "string \<Rightarrow> SegmentRef option" where
  "parseSegmentRef ref =
     (if startsWith ref CHR ''#'' then
        Some \<lparr>project = None, documentId = None,
              segmentId = substringFrom ref 1, original = ref\<rparr>
      else
        let hashIdx = lastIndexOf CHR ''#'' ref in
        if hashIdx = -1 \<or> hashIdx = int (length ref) - 1 then None
        else
          let segId = substringFrom ref (hashIdx + 1);
              resourcePath = substring ref 0 hashIdx in
          if startsWith resourcePath CHR ''@'' then
            (let slashIdx = indexOf CHR ''/'' resourcePath in
             if slashIdx = -1 then None
             else Some \<lparr>project = Some (substring resourcePath 1 slashIdx),
                        documentId = Some (substringFrom resourcePath (slashIdx + 1)),
                        segmentId = segId, original = ref\<rparr>)
          else
            Some \<lparr>project = None, documentId = Some resourcePath,
                  segmentId = segId, original = ref\<rparr>)"

text \<open>\<^verbatim>\<open>buildSegmentRef\<close>: the template \<^verbatim>\<open>@${project}/${pageId}#${segmentId}\<close>.\<close>

definition buildSegmentRef :: "string \<Rightarrow> string \<Rightarrow> string \<Rightarrow> string" where
  "buildSegmentRef proj pageId segId =
     ''@'' @ proj @ ''/'' @ pageId @ ''#'' @ segId"

section \<open>Concept graphs (concepts.ts)\<close>

text \<open>
  Numbers that the sources only compare are rationals here; \<^verbatim>\<open>undefined\<close>
  for an optional field is \<open>None\<close>.
\<close>

datatype ConceptStatus = Active | Deprecated | Proposed

datatype ConceptSource = Manual | Discovered | Imported

record Concept =
  c_id :: string
  c_key :: string
  c_name :: string
  c_description :: "string option"
  c_aliases :: "string list option"
  c_status :: ConceptStatus
  c_source :: ConceptSource
  c_confidence :: "rat option"
  c_tags :: "string list option"

datatype RelationshipKind = Parent | Related | Implements | Documents | DependsOn

record ConceptRelationship =
  r_from :: string
  r_to :: string
  r_kind :: RelationshipKind
  r_weight :: rat
  r_description :: "string option"
  r_bidirectional :: "bool option"

record ConceptGraph =
  concepts :: "Concept list"
  relationships :: "ConceptRelationship list"

text \<open>\<^verbatim>\<open>s.replace(/^concept:@/, '')\<close>\<close>

definition stripConceptPrefix :: "string \<Rightarrow> string" where
  "stripConceptPrefix s = (if prefix ''concept:@'' s then drop 9 s else s)"

text \<open>
  One turn of the loop over \<^verbatim>\<open>graph.concepts\<close> in \<^verbatim>\<open>validateConcepts\<close>: the
  findings it pushes, given the ids seen so far.
\<close>

definition conceptFindings :: "string set \<Rightarrow> Concept \<Rightarrow> string list" where
  "conceptFindings conceptIds c =
     (if c_id c = [] then [''Concept ID is required''] else []) @
     (if c_key c = [] then [''Concept key is required''] else []) @
     (if c_name c = [] then [''Concept name is required''] else []) @
     (if c_id c \<in> conceptIds then [''Duplicate concept ID: '' @ c_id c] else []) @
     (if c_source c = Discovered \<and> c_confidence c = None
      then [''Discovered concept '' @ c_id c @ '' must have confidence score''] else []) @
     (if c_source c = Manual \<and> c_confidence c \<noteq> None
      then [''Manual concept '' @ c_id c @ '' should not have confidence score''] else []) @
     (case c_confidence c of
        None \<Rightarrow> []
      | Some x \<Rightarrow>
          if x < 0 \<or> x > 1
          then [''Invalid confidence for '' @ c_id c @ '': must be 0.0-1.0''] else [])"

fun conceptLoop :: "Concept list \<Rightarrow> string list \<times> string set \<Rightarrow> string list \<times> string set" where
  "conceptLoop [] st = st"
| "conceptLoop (c # cs) (errors, conceptIds) =
     conceptLoop cs (errors @ conceptFindings conceptIds c, insert (c_id c) conceptIds)"

text \<open>One turn of the loop over \<^verbatim>\<open>graph.relationships\<close>.\<close>

definition relationshipFindings :: "string set \<Rightarrow> ConceptRelationship \<Rightarrow> string list" where
  "relationshipFindings conceptIds rel =
     (if stripConceptPrefix (r_from rel) \<notin> conceptIds
      then [''Relationship references non-existent concept: '' @ r_from rel] else []) @
     (if stripConceptPrefix (r_to rel) \<notin> conceptIds
      then [''Relationship references non-existent concept: '' @ r_to rel] else []) @
     (if r_weight rel < 0 \<or> r_weight rel > 1
      then [''Invalid relationship weight: must be 0.0-1.0''] else []) @
     (if r_from rel = r_to rel
      then [''Self-referencing relationships not allowed''] else [])"

definition validateConcepts :: "ConceptGraph \<Rightarrow> string list" where
  "validateConcepts graph =
     (case conceptLoop (concepts graph) ([], {}) of
        (errors, conceptIds) \<Rightarrow>
          errors @ concat (map (relationshipFindings conceptIds) (relationships graph)))"

text \<open>
  \<^verbatim>\<open>buildConceptHierarchy\<close> calls itself for every child and the source bounds the
  depth by nothing but the call stack. The model counts the depth: the outer \<open>None\<close>
  says that \<open>depth\<close> nested calls were not enough, \<open>Some None\<close> is the source's
  \<^verbatim>\<open>null\<close>.
\<close>

datatype Hierarchy = Hierarchy (h_concept: Concept) (h_children: "Hierarchy list")

fun filterBoolean :: "'a option list \<Rightarrow> 'a list" where
  "filterBoolean [] = []"
| "filterBoolean (None # xs) = filterBoolean xs"
| "filterBoolean (Some x # xs) = x # filterBoolean xs"

fun sequenceCalls :: "'a option list \<Rightarrow> 'a list option" where
  "sequenceCalls [] = Some []"
| "sequenceCalls (None # xs) = None"
| "sequenceCalls (Some x # xs) =
     (case sequenceCalls xs of None \<Rightarrow> None | Some ys \<Rightarrow> Some (x # ys))"

fun buildConceptHierarchy :: "nat \<Rightarrow> ConceptGraph \<Rightarrow> string \<Rightarrow> Hierarchy option option" where
  "buildConceptHierarchy 0 graph rootKey = None"
| "buildConceptHierarchy (Suc depth) graph rootKey =
     (case find (\<lambda>c. c_key c = rootKey) (concepts graph) of
        None \<Rightarrow> Some None
      | Some rootConcept \<Rightarrow>
          (case sequenceCalls
                  (map (\<lambda>r.
                          let childId = stripConceptPrefix (r_from r) in
                          case find (\<lambda>c. c_id c = childId) (concepts graph) of
                            None \<Rightarrow> Some None
                          | Some child \<Rightarrow> buildConceptHierarchy depth graph (c_key child))
                       (filter (\<lambda>r. r_to r = ''concept:@'' @ c_id rootConcept \<and> r_kind r = Parent)
                               (relationships graph)))
           of None \<Rightarrow> None
            | Some children \<Rightarrow> Some (Some (Hierarchy rootConcept (filterBoolean children)))))"

text \<open>
  Two concepts, each declared the parent of the other: the input on which
  \<^verbatim>\<open>buildConceptHierarchy\<close> is examined below.
\<close>

definition plainConcept :: "string \<Rightarrow> string \<Rightarrow> Concept" where
  "plainConcept i k =
     \<lparr>c_id = i, c_key = k, c_name = k, c_description = None, c_aliases = None,
      c_status = Active, c_source = Imported, c_confidence = None, c_tags = None\<rparr>"

definition parentEdge :: "string \<Rightarrow> string \<Rightarrow> ConceptRelationship" where
  "parentEdge child parent =
     \<lparr>r_from = ''concept:@'' @ child, r_to = ''concept:@'' @ parent, r_kind = Parent,
      r_weight = 1, r_description = None, r_bidirectional = None\<rparr>"

definition mutualParents :: ConceptGraph where
  "mutualParents =
     \<lparr>concepts = [plainConcept ''A'' ''a'', plainConcept ''B'' ''b''],
      relationships = [parentEdge ''B'' ''A'', parentEdge ''A'' ''B'']\<rparr>"

text \<open>A graph with one discovered concept lacking a confidence and one manual concept carrying one.\<close>

definition pairingExample :: ConceptGraph where
  "pairingExample =
     \<lparr>concepts =
        [(plainConcept ''c1'' ''auth'')\<lparr>c_source := Discovered\<rparr>,
         (plainConcept ''c2'' ''billing'')\<lparr>c_source := Manual, c_confidence := Some (1/2)\<rparr>],
      relationships = []\<rparr>"

text \<open>The findings of the concept loop, turn after turn, as one list.\<close>

fun conceptFindingsFrom :: "string set \<Rightarrow> Concept list \<Rightarrow> string list" where
  "conceptFindingsFrom ids [] = []"
| "conceptFindingsFrom ids (c # cs) =
     conceptFindings ids c @ conceptFindingsFrom (insert (c_id c) ids) cs"

section \<open>Code and documentation linkage (linkage.ts)\<close>

datatype Relevance = Primary | Supporting | RelatedDoc

record LinkSegment =
  ls_id :: string
  ls_heading :: string
  ls_lines :: "rat \<times> rat"

record Asset =
  a_path :: string
  a_segments :: "LinkSegment list option"
  a_relevance :: Relevance
  a_doc_type :: string

record CodeMapping =
  cm_created_at :: "string option"
  cm_updated_at :: "string option"
  cm_assets :: "Asset list"

record CodeRef =
  cr_path :: string
  cr_functions :: "string list"
  cr_lines :: "rat \<times> rat"

record AssetMapping =
  am_code_refs :: "CodeRef list"

record Linkage =
  l_version :: string
  l_created_at :: "string option"
  l_updated_at :: "string option"
  l_meta_source :: "string option"
  code_to_assets :: "(string \<times> CodeMapping) list"
  asset_to_code :: "(string \<times> AssetMapping) list"

text \<open>
  A \<^verbatim>\<open>Record<string, T>\<close> is the list of its own entries in the order
  \<^verbatim>\<open>Object.entries\<close> yields them. It is a plain object, as \<^verbatim>\<open>yaml.load\<close> and an
  object literal build it, so \<^verbatim>\<open>record[key]\<close> reads the own entry of that key and,
  where there is none, the member of that name inherited from \<^verbatim>\<open>Object.prototype\<close>.
  An own entry is an object and an inherited member is a function or an object: both
  are truthy, so \<^verbatim>\<open>!record[key]\<close> holds exactly when the key has no own entry and
  names no inherited member.
\<close>

definition objectPrototypeMembers :: "string list" where
  "objectPrototypeMembers =
     [''constructor'', ''__defineGetter__'', ''__defineSetter__'', ''hasOwnProperty'',
      ''__lookupGetter__'', ''__lookupSetter__'', ''isPrototypeOf'',
      ''propertyIsEnumerable'', ''toString'', ''valueOf'', ''__proto__'',
      ''toLocaleString'']"

text \<open>Whether \<^verbatim>\<open>record[key]\<close> is truthy\<close>

definition hasMember :: "(string \<times> 'v) list \<Rightarrow> string \<Rightarrow> bool" where
  "hasMember entries key =
     (case map_of entries key of
        Some v \<Rightarrow> True
      | None \<Rightarrow> key \<in> set objectPrototypeMembers)"

text \<open>
  \<^verbatim>\<open>validateBidirectionalConsistency\<close>: each \<^verbatim>\<open>for\<close> loop is a function that
  threads the \<^verbatim>\<open>errors\<close> array, pushing at its end.
\<close>

fun assetsLoop :: "Linkage \<Rightarrow> Asset list \<Rightarrow> string list \<Rightarrow> string list" where
  "assetsLoop linkage [] errors = errors"
| "assetsLoop linkage (asset # rest) errors =
     assetsLoop linkage rest
       (if \<not> hasMember (asset_to_code linkage) (a_path asset)
        then errors @ [''Missing reverse mapping: '' @ a_path asset @ '' not in asset_to_code'']
        else errors)"

fun codeToAssetsLoop :: "Linkage \<Rightarrow> (string \<times> CodeMapping) list \<Rightarrow> string list \<Rightarrow> string list" where
  "codeToAssetsLoop linkage [] errors = errors"
| "codeToAssetsLoop linkage ((symbol, mapping) # rest) errors =
     codeToAssetsLoop linkage rest (assetsLoop linkage (cm_assets mapping) errors)"

fun functionsLoop :: "Linkage \<Rightarrow> CodeRef \<Rightarrow> string list \<Rightarrow> string list \<Rightarrow> string list" where
  "functionsLoop linkage codeRef [] errors = errors"
| "functionsLoop linkage codeRef (func # rest) errors =
     functionsLoop linkage codeRef rest
       (let symbol = cr_path codeRef @ '':'' @ func in
        if \<not> hasMember (code_to_assets linkage) symbol
        then errors @ [''Missing forward mapping: '' @ symbol @ '' not in code_to_assets'']
        else errors)"

fun codeRefsLoop :: "Linkage \<Rightarrow> CodeRef list \<Rightarrow> string list \<Rightarrow> string list" where
  "codeRefsLoop linkage [] errors = errors"
| "codeRefsLoop linkage (codeRef # rest) errors =
     codeRefsLoop linkage rest (functionsLoop linkage codeRef (cr_functions codeRef) errors)"

fun assetToCodeLoop :: "Linkage \<Rightarrow> (string \<times> AssetMapping) list \<Rightarrow> string list \<Rightarrow> string list" where
  "assetToCodeLoop linkage [] errors = errors"
| "assetToCodeLoop linkage ((docPath, mapping) # rest) errors =
     assetToCodeLoop linkage rest (codeRefsLoop linkage (am_code_refs mapping) errors)"

definition validateBidirectionalConsistency :: "Linkage \<Rightarrow> string list" where
  "validateBidirectionalConsistency linkage =
     assetToCodeLoop linkage (asset_to_code linkage)
       (codeToAssetsLoop linkage (code_to_assets linkage) [])"

text \<open>What the linkage refers to, in the order the loops meet it.\<close>

definition referencedAssets :: "Linkage \<Rightarrow> string list" where
  "referencedAssets linkage =
     concat (map (\<lambda>(symbol, mapping). map a_path (cm_assets mapping)) (code_to_assets linkage))"

definition symbolsOf :: "AssetMapping \<Rightarrow> string list" where
  "symbolsOf mapping =
     concat (map (\<lambda>codeRef. map (\<lambda>func. cr_path codeRef @ '':'' @ func) (cr_functions codeRef))
                 (am_code_refs mapping))"

definition referencedSymbols :: "Linkage \<Rightarrow> string list" where
  "referencedSymbols linkage =
     concat (map (\<lambda>(docPath, mapping). symbolsOf mapping) (asset_to_code linkage))"

definition keysOf :: "(string \<times> 'v) list \<Rightarrow> string set" where
  "keysOf entries = fst ` set entries"

definition reverseFinding :: "string \<Rightarrow> string" where
  "reverseFinding path = ''Missing reverse mapping: '' @ path @ '' not in asset_to_code''"

definition forwardFinding :: "string \<Rightarrow> string" where
  "forwardFinding symbol = ''Missing forward mapping: '' @ symbol @ '' not in code_to_assets''"

text \<open>\<^verbatim>\<open>linkage.asset_to_code[path] = mapping\<close> for a path that has no entry yet.\<close>

definition addReverseEntry :: "Linkage \<Rightarrow> string \<Rightarrow> AssetMapping \<Rightarrow> Linkage" where
  "addReverseEntry linkage path mapping =
     linkage\<lparr>asset_to_code := asset_to_code linkage @ [(path, mapping)]\<rparr>"

text \<open>The linkage of the repository's test "should detect missing reverse mapping".\<close>

definition inconsistentLinkage :: Linkage where
  "inconsistentLinkage =
     \<lparr>l_version = ''1'', l_created_at = None, l_updated_at = None, l_meta_source = None,
      code_to_assets =
        [(''test.go:Func'',
          \<lparr>cm_created_at = None, cm_updated_at = None,
           cm_assets = [\<lparr>a_path = ''missing.md'', a_segments = None,
                         a_relevance = Primary, a_doc_type = ''reference''\<rparr>]\<rparr>)],
      asset_to_code = []\<rparr>"

definition reverseOfTest :: AssetMapping where
  "reverseOfTest =
     \<lparr>am_code_refs = [\<lparr>cr_path = ''test.go'', cr_functions = [''Func''], cr_lines = (1, 9)\<rparr>]\<rparr>"

text \<open>The same linkage with an asset named like a member every object inherits.\<close>

definition constructorLinkage :: Linkage where
  "constructorLinkage =
     \<lparr>l_version = ''1'', l_created_at = None, l_updated_at = None, l_meta_source = None,
      code_to_assets =
        [(''test.go:Func'',
          \<lparr>cm_created_at = None, cm_updated_at = None,
           cm_assets = [\<lparr>a_path = ''constructor'', a_segments = None,
                         a_relevance = Primary, a_doc_type = ''reference''\<rparr>]\<rparr>)],
      asset_to_code = []\<rparr>"

section \<open>Navigation trees (primitives/navigation: filterByVersion)\<close>

text \<open>
  Of an item's free-form \<^verbatim>\<open>metadata\<close> record the code reads the \<^verbatim>\<open>versions\<close> entry
  only; the other entries are kept as they are.
\<close>

record Metadata =
  md_versions :: "string list option"
  md_other :: "(string \<times> string) list"

datatype NavigationItem = NavigationItem
  (n_id: string)
  (n_title: string)
  (n_link: "string option")
  (n_children: "NavigationItem list option")
  (n_noLink: "bool option")
  (n_icon: "string option")
  (n_badge: "string option")
  (n_order: "rat option")
  (n_metadata: "Metadata option")

record NavigationTree =
  t_id :: string
  t_label :: "string option"
  t_items :: "NavigationItem list"
  t_versions :: "string list option"
  t_default :: "bool option"

text \<open>
  The predicate of \<^verbatim>\<open>items.filter\<close> in \<^verbatim>\<open>filterByVersion\<close>:
  \<^verbatim>\<open>itemVersions = item.metadata?.versions || tree.versions\<close> (an array is truthy, also
  when empty), kept when \<^verbatim>\<open>!itemVersions || itemVersions.includes(version)\<close>.
\<close>

definition itemVersions :: "string list option \<Rightarrow> NavigationItem \<Rightarrow> string list option" where
  "itemVersions treeVersions item =
     (case n_metadata item of
        None \<Rightarrow> treeVersions
      | Some md \<Rightarrow> (case md_versions md of None \<Rightarrow> treeVersions | Some vs \<Rightarrow> Some vs))"

definition keepItem :: "string list option \<Rightarrow> string \<Rightarrow> NavigationItem \<Rightarrow> bool" where
  "keepItem treeVersions version item =
     (case itemVersions treeVersions item of None \<Rightarrow> True | Some vs \<Rightarrow> version \<in> set vs)"

function filterItems :: "string list option \<Rightarrow> string \<Rightarrow> NavigationItem list \<Rightarrow> NavigationItem list" where
  "filterItems treeVersions version items =
     map (\<lambda>item.
            NavigationItem (n_id item) (n_title item) (n_link item)
              (case n_children item of
                 None \<Rightarrow> None
               | Some children \<Rightarrow> Some (filterItems treeVersions version children))
              (n_noLink item) (n_icon item) (n_badge item) (n_order item) (n_metadata item))
         (filter (keepItem treeVersions version) items)"
  by pat_completeness auto

termination
proof (relation "measure (\<lambda>(treeVersions, version, items). size_list size items)", goal_cases)
  case 1
  show ?case by simp
next
  case (2 treeVersions version items x children)
  from 2 have child: "n_children x = Some children" and member: "x \<in> set items"
    by simp_all
  have "size_list size children < size x"
    using child by (cases x) simp
  moreover have "size x \<le> size_list size items"
    using member by (rule size_list_estimation') simp
  ultimately show ?case by simp
qed

definition filterByVersion :: "NavigationTree \<Rightarrow> string \<Rightarrow> NavigationTree" where
  "filterByVersion tree version =
     (case t_versions tree of
        Some vs \<Rightarrow>
          if version \<notin> set vs then tree\<lparr>t_items := []\<rparr>
          else tree\<lparr>t_items := filterItems (t_versions tree) version (t_items tree)\<rparr>
      | None \<Rightarrow> tree\<lparr>t_items := filterItems (t_versions tree) version (t_items tree)\<rparr>)"

declare filterItems.simps [simp del]

text \<open>
  An item without its subtree, and the root-to-item paths of a forest in pre-order:
  what is needed to say which items of a tree are present in another.
\<close>

definition ownFields :: "NavigationItem \<Rightarrow> NavigationItem" where
  "ownFields item =
     NavigationItem (n_id item) (n_title item) (n_link item) None
       (n_noLink item) (n_icon item) (n_badge item) (n_order item) (n_metadata item)"

function itemPaths :: "NavigationItem list \<Rightarrow> NavigationItem list list" where
  "itemPaths [] = []"
| "itemPaths (item # rest) =
     ([ownFields item] #
      map ((#) (ownFields item))
          (case n_children item of None \<Rightarrow> [] | Some children \<Rightarrow> itemPaths children))
     @ itemPaths rest"
  by pat_completeness auto

termination
proof (relation "measure (size_list size)", goal_cases)
  case 1
  show ?case by simp
next
  case (2 item rest children)
  then have "size_list size children < size item"
    by (cases item) simp
  then show ?case by simp
next
  case (3 item rest)
  show ?case by simp
qed

text \<open>A small forest: \<open>P\<close> (for \<open>v1\<close>) over \<open>C\<close> (for \<open>v2\<close>) and \<open>D\<close>, and \<open>Q\<close> over \<open>R\<close> (for \<open>v2\<close>).\<close>

definition leafItem :: "string \<Rightarrow> string list option \<Rightarrow> NavigationItem" where
  "leafItem i vs =
     NavigationItem i i None None None None None None
       (case vs of None \<Rightarrow> None | Some v \<Rightarrow> Some \<lparr>md_versions = Some v, md_other = []\<rparr>)"

definition parentItem :: "string \<Rightarrow> string list option \<Rightarrow> NavigationItem list \<Rightarrow> NavigationItem" where
  "parentItem i vs children =
     NavigationItem i i None (Some children) None None None None
       (case vs of None \<Rightarrow> None | Some v \<Rightarrow> Some \<lparr>md_versions = Some v, md_other = []\<rparr>)"

definition exampleTree :: NavigationTree where
  "exampleTree =
     \<lparr>t_id = ''main'', t_label = None,
      t_items =
        [parentItem ''P'' (Some [''v1''])
           [leafItem ''C'' (Some [''v2'']), leafItem ''D'' None],
         parentItem ''Q'' None [leafItem ''R'' (Some [''v2''])]],
      t_versions = None, t_default = None\<rparr>"

section \<open>Double-precision numbers\<close>

text \<open>
  Page aggregation adds, multiplies and divides JavaScript numbers, which are
  IEEE 754 binary64 values: every operation gives the representable number nearest
  to the exact result, ties going to the even significand. A finite double is the
  rational it stands for; the two infinities and NaN are values of their own
  (YAML's \<^verbatim>\<open>.inf\<close> and \<^verbatim>\<open>.nan\<close>, or an overflow, bring them in). The two zeros are
  one value: they differ only as divisors, and the aggregation divides only by a
  total that is greater than zero.
\<close>

datatype double = Finite rat | PosInf | NegInf | NaN

definition pow2 :: "int \<Rightarrow> rat" where
  "pow2 e = (if 0 \<le> e then 2 ^ nat e else 1 / 2 ^ nat (- e))"

text \<open>
  The binade of a positive rational \<open>q\<close> is the exponent \<open>e\<close> with
  \<open>pow2 e \<le> q < pow2 (e + 1)\<close>, found by halving or doubling.
\<close>

function binadeUp :: "rat \<Rightarrow> int" where
  "binadeUp q = (if q < 2 then 0 else binadeUp (q / 2) + 1)"
  by pat_completeness auto
termination
proof (relation "measure (\<lambda>q. nat \<lfloor>q\<rfloor>)")
  show "wf (measure (\<lambda>q::rat. nat \<lfloor>q\<rfloor>))" by simp
next
  fix q :: rat assume "\<not> q < 2"
  then have "\<lfloor>q / 2\<rfloor> < \<lfloor>q\<rfloor>" "0 < \<lfloor>q\<rfloor>" by linarith+
  then show "(q / 2, q) \<in> measure (\<lambda>q. nat \<lfloor>q\<rfloor>)" by simp
qed

declare binadeUp.simps [simp del]

function binadeDown :: "rat \<Rightarrow> int" where
  "binadeDown q = (if q \<le> 0 \<or> 1 \<le> q then 0 else binadeDown (2 * q) - 1)"
  by pat_completeness auto
termination
proof (relation "measure (\<lambda>q. nat \<lceil>1 / q\<rceil>)")
  show "wf (measure (\<lambda>q::rat. nat \<lceil>1 / q\<rceil>))" by simp
next
  fix q :: rat assume "\<not> (q \<le> 0 \<or> 1 \<le> q)"
  then have q: "0 < q" "q < 1" by auto
  define x where "x = 1 / q"
  have x: "1 < x" using q by (simp add: x_def)
  have half: "1 / (2 * q) = x / 2" by (simp add: x_def)
  have "1 < \<lceil>x\<rceil>" using x by (simp add: less_ceiling_iff)
  then have two: "(2::rat) \<le> of_int \<lceil>x\<rceil>" and pos: "0 < \<lceil>x\<rceil>"
    by (simp_all add: of_int_le_iff [of 2, simplified] del: of_int_le_iff)
  have "x \<le> of_int \<lceil>x\<rceil>" by (rule le_of_int_ceiling)
  with two have "x / 2 \<le> of_int \<lceil>x\<rceil> - 1" by linarith
  then have "\<lceil>x / 2\<rceil> < \<lceil>x\<rceil>" by (simp add: ceiling_less_iff)
  with pos show "(2 * q, q) \<in> measure (\<lambda>q. nat \<lceil>1 / q\<rceil>)"
    using half by (simp add: x_def mult.commute)
qed

declare binadeDown.simps [simp del]

definition binade :: "rat \<Rightarrow> int" where
  "binade q = (if 1 \<le> q then binadeUp q else binadeDown q)"

text \<open>Rounding to the nearest integer, a tie to the even one\<close>

definition roundHalfEven :: "rat \<Rightarrow> int" where
  "roundHalfEven r =
     (let f = \<lfloor>r\<rfloor>; d = r - of_int f
      in if d < 1 / 2 then f else if 1 / 2 < d then f + 1 else if even f then f else f + 1)"

text \<open>
  Rounding an exact result to a double. The significand has 53 bits, so the doubles
  of binade \<open>e\<close> are the multiples of \<open>pow2 (e - 52)\<close>; below the smallest normal
  binade, \<open>-1022\<close>, the spacing stays that of \<open>-1022\<close> (subnormal numbers); a result
  that rounds to \<open>pow2 1024\<close> or more in magnitude is an infinity.
\<close>

definition roundToDouble :: "rat \<Rightarrow> double" where
  "roundToDouble q =
     (if q = 0 then Finite 0
      else let a = \<bar>q\<bar>;
               e = max (binade a) (- 1022);
               ulp = pow2 (e - 52);
               m = of_int (roundHalfEven (a / ulp)) * ulp
           in if pow2 1024 \<le> m then (if 0 < q then PosInf else NegInf)
              else Finite (if 0 < q then m else - m))"

text \<open>\<^verbatim>\<open>x + y\<close>\<close>

fun fadd :: "double \<Rightarrow> double \<Rightarrow> double" where
  "fadd (Finite a) (Finite b) = roundToDouble (a + b)"
| "fadd NaN y = NaN"
| "fadd x NaN = NaN"
| "fadd (Finite a) y = y"
| "fadd x (Finite b) = x"
| "fadd PosInf PosInf = PosInf"
| "fadd NegInf NegInf = NegInf"
| "fadd PosInf NegInf = NaN"
| "fadd NegInf PosInf = NaN"

text \<open>\<^verbatim>\<open>x * y\<close>\<close>

fun fmul :: "double \<Rightarrow> double \<Rightarrow> double" where
  "fmul (Finite a) (Finite b) = roundToDouble (a * b)"
| "fmul NaN y = NaN"
| "fmul x NaN = NaN"
| "fmul (Finite a) PosInf = (if a = 0 then NaN else if 0 < a then PosInf else NegInf)"
| "fmul (Finite a) NegInf = (if a = 0 then NaN else if 0 < a then NegInf else PosInf)"
| "fmul PosInf (Finite b) = (if b = 0 then NaN else if 0 < b then PosInf else NegInf)"
| "fmul NegInf (Finite b) = (if b = 0 then NaN else if 0 < b then NegInf else PosInf)"
| "fmul PosInf PosInf = PosInf"
| "fmul NegInf NegInf = PosInf"
| "fmul PosInf NegInf = NegInf"
| "fmul NegInf PosInf = NegInf"

text \<open>\<^verbatim>\<open>x / y\<close>; a zero divisor is read as the positive zero\<close>

fun fdiv :: "double \<Rightarrow> double \<Rightarrow> double" where
  "fdiv (Finite a) (Finite b) =
     (if b = 0 then (if a = 0 then NaN else if 0 < a then PosInf else NegInf)
      else roundToDouble (a / b))"
| "fdiv NaN y = NaN"
| "fdiv x NaN = NaN"
| "fdiv (Finite a) y = Finite 0"
| "fdiv PosInf (Finite b) = (if b < 0 then NegInf else PosInf)"
| "fdiv NegInf (Finite b) = (if b < 0 then PosInf else NegInf)"
| "fdiv PosInf PosInf = NaN"
| "fdiv PosInf NegInf = NaN"
| "fdiv NegInf PosInf = NaN"
| "fdiv NegInf NegInf = NaN"

text \<open>A number is truthy unless it is zero or NaN\<close>

fun truthy :: "double \<Rightarrow> bool" where
  "truthy (Finite q) = (q \<noteq> 0)"
| "truthy NaN = False"
| "truthy x = True"

text \<open>\<^verbatim>\<open>x > 0\<close>\<close>

fun greaterThanZero :: "double \<Rightarrow> bool" where
  "greaterThanZero (Finite q) = (0 < q)"
| "greaterThanZero PosInf = True"
| "greaterThanZero x = False"

section \<open>Page aggregation (aggregatePageMetadata)\<close>

text \<open>
  The numeric part of \<^verbatim>\<open>aggregatePageMetadata\<close>: token budgets and the weighted
  boost. The unions of concepts, roles and semantic tags and the checksum digest
  do not feed into these numbers and are left out.
\<close>

record TokenConfig =
  max_tokens :: "double option"
  min_tokens :: "double option"

record AnnotatedSegment =
  s_id :: string
  s_boost :: "double option"
  s_return :: "TokenConfig option"
  s_generate :: "TokenConfig option"
  s_segment_checksum :: "string option"

text \<open>\<^verbatim>\<open>config?.max_tokens\<close> and \<^verbatim>\<open>config?.min_tokens\<close>\<close>

definition maxTokensOf :: "TokenConfig option \<Rightarrow> double option" where
  "maxTokensOf config = (case config of None \<Rightarrow> None | Some c \<Rightarrow> max_tokens c)"

definition minTokensOf :: "TokenConfig option \<Rightarrow> double option" where
  "minTokensOf config = (case config of None \<Rightarrow> None | Some c \<Rightarrow> min_tokens c)"

text \<open>\<^verbatim>\<open>x || d\<close> on an optional number\<close>

definition orElse :: "double option \<Rightarrow> double \<Rightarrow> double" where
  "orElse x d = (case x of None \<Rightarrow> d | Some v \<Rightarrow> if truthy v then v else d)"

text \<open>\<^verbatim>\<open>if (x) acc += x\<close> on an optional number\<close>

definition addIfTruthy :: "double \<Rightarrow> double option \<Rightarrow> double" where
  "addIfTruthy acc x =
     (case x of None \<Rightarrow> acc | Some v \<Rightarrow> if truthy v then fadd acc v else acc)"

record Totals =
  totalReturnMax :: double
  totalReturnMin :: double
  totalGenerateMax :: double
  totalGenerateMin :: double
  weightedBoostSum :: double
  totalTokens :: double

text \<open>One turn of \<^verbatim>\<open>for (const segment of annotations.segments)\<close>\<close>

definition segmentStep :: "Totals \<Rightarrow> AnnotatedSegment \<Rightarrow> Totals" where
  "segmentStep acc segment =
     (let segmentTokens = orElse (maxTokensOf (s_return segment)) (Finite 0);
          boost = orElse (s_boost segment) (Finite 1)
      in \<lparr>totalReturnMax = addIfTruthy (totalReturnMax acc) (maxTokensOf (s_return segment)),
          totalReturnMin = addIfTruthy (totalReturnMin acc) (minTokensOf (s_return segment)),
          totalGenerateMax =
            addIfTruthy (totalGenerateMax acc) (maxTokensOf (s_generate segment)),
          totalGenerateMin =
            addIfTruthy (totalGenerateMin acc) (minTokensOf (s_generate segment)),
          weightedBoostSum = fadd (weightedBoostSum acc) (fmul boost segmentTokens),
          totalTokens = addIfTruthy (totalTokens acc) (maxTokensOf (s_return segment))\<rparr>)"

record PageAggregation =
  total_return_max :: double
  total_return_min :: double
  total_generate_max :: "double option"
  total_generate_min :: "double option"
  average_boost :: double
  segment_count :: nat

text \<open>\<^verbatim>\<open>x || undefined\<close>\<close>

definition orUndefined :: "double \<Rightarrow> double option" where
  "orUndefined x = (if truthy x then Some x else None)"

definition aggregatePageMetadata :: "AnnotatedSegment list \<Rightarrow> PageAggregation" where
  "aggregatePageMetadata segments =
     (let acc = foldl segmentStep
                  \<lparr>totalReturnMax = Finite 0, totalReturnMin = Finite 0,
                   totalGenerateMax = Finite 0, totalGenerateMin = Finite 0,
                   weightedBoostSum = Finite 0, totalTokens = Finite 0\<rparr> segments
      in \<lparr>total_return_max = totalReturnMax acc,
          total_return_min = totalReturnMin acc,
          total_generate_max = orUndefined (totalGenerateMax acc),
          total_generate_min = orUndefined (totalGenerateMin acc),
          average_boost =
            (if greaterThanZero (totalTokens acc)
             then fdiv (weightedBoostSum acc) (totalTokens acc) else Finite 1),
          segment_count = length segments\<rparr>)"

text \<open>
  The rounded sums of the average: the retrieval budget of a segment, \<open>0\<close> when it is
  absent, \<open>0\<close> or NaN; its boost, \<open>1\<close> when it declares none; the budgets other than
  \<open>0\<close> added in segment order, and the products of boost and budget added in segment
  order.
\<close>

definition retrievalTokens :: "AnnotatedSegment \<Rightarrow> double" where
  "retrievalTokens segment = orElse (maxTokensOf (s_return segment)) (Finite 0)"

definition declaredBoost :: "AnnotatedSegment \<Rightarrow> double" where
  "declaredBoost segment = (case s_boost segment of None \<Rightarrow> Finite 1 | Some b \<Rightarrow> b)"

definition tokenSum :: "AnnotatedSegment list \<Rightarrow> double" where
  "tokenSum segments = foldl fadd (Finite 0) (filter truthy (map retrievalTokens segments))"

definition weightedSum :: "AnnotatedSegment list \<Rightarrow> double" where
  "weightedSum segments =
     foldl fadd (Finite 0) (map (\<lambda>s. fmul (declaredBoost s) (retrievalTokens s)) segments)"

text \<open>A boost that \<^verbatim>\<open>segment.boost || 1.0\<close> keeps: none declared, or one that is truthy\<close>

definition keepsBoost :: "AnnotatedSegment \<Rightarrow> bool" where
  "keepsBoost segment = (case s_boost segment of None \<Rightarrow> True | Some b \<Rightarrow> truthy b)"

text \<open>
  The average as the specification words it, in exact arithmetic on the values of
  finite doubles: declared boosts weighted by the retrieval budgets, \<open>1\<close> for a
  segment that declares no boost, and \<open>1\<close> when the budgets sum to zero.
\<close>

fun valueOf :: "double \<Rightarrow> rat" where
  "valueOf (Finite q) = q"
| "valueOf x = 0"

definition exactBoost :: "AnnotatedSegment \<Rightarrow> rat" where
  "exactBoost segment = (case s_boost segment of None \<Rightarrow> 1 | Some b \<Rightarrow> valueOf b)"

definition exactTokens :: "AnnotatedSegment \<Rightarrow> rat" where
  "exactTokens segment =
     (case maxTokensOf (s_return segment) of None \<Rightarrow> 0 | Some t \<Rightarrow> valueOf t)"

definition tokenWeightedAverage :: "AnnotatedSegment list \<Rightarrow> rat" where
  "tokenWeightedAverage segments =
     (let total = sum_list (map exactTokens segments)
      in if total = 0 then 1
         else sum_list (map (\<lambda>s. exactBoost s * exactTokens s) segments) / total)"

definition retrievalSegment :: "string \<Rightarrow> double option \<Rightarrow> double \<Rightarrow> AnnotatedSegment" where
  "retrievalSegment i b t =
     \<lparr>s_id = i, s_boost = b,
      s_return = Some \<lparr>max_tokens = Some t, min_tokens = None\<rparr>,
      s_generate = None, s_segment_checksum = None\<rparr>"

text \<open>The number literals \<^verbatim>\<open>0.1\<close> and \<^verbatim>\<open>1.2\<close> are the doubles nearest to them\<close>

definition tenth :: double where
  "tenth = roundToDouble (1 / 10)"

definition sixFifths :: double where
  "sixFifths = roundToDouble (12 / 10)"

section \<open>Marker patterns\<close>

text \<open>
  The regular expressions of the two segment parsers, each as a matcher that reads
  the pattern at the head of a text and answers the text left over. A code unit is
  an 8-bit \<open>char\<close>; of the units that \<^verbatim>\<open>\s\<close> accepts these are tab, line feed,
  vertical tab, form feed, carriage return, space and no-break space.

  No matcher backtracks, and none has to: \<^verbatim>\<open>\s*\<close> and \<^verbatim>\<open>\s+\<close> are always
  followed by a literal that starts with a non-space unit, \<^verbatim>\<open>[^"]+\<close> by the quote
  it excludes, and an optional group that matched starts with spaces and a letter,
  where the pattern after it wants spaces and \<^verbatim>\<open>-\<close> or another letter.
\<close>

definition isSpace :: "char \<Rightarrow> bool" where
  "isSpace c \<longleftrightarrow>
     c = CHR 0x09 \<or> c = CHR 0x0A \<or> c = CHR 0x0B \<or> c = CHR 0x0C \<or> c = CHR 0x0D \<or>
     c = CHR 0x20 \<or> c = CHR 0xA0"

definition dquote :: char where
  "dquote = CHR 0x22"

definition newline :: char where
  "newline = CHR 0x0A"

text \<open>A literal.\<close>

fun lit :: "string \<Rightarrow> string \<Rightarrow> string option" where
  "lit [] s = Some s"
| "lit (p # ps) [] = None"
| "lit (p # ps) (c # cs) = (if p = c then lit ps cs else None)"

text \<open>\<^verbatim>\<open>\s*\<close> and \<^verbatim>\<open>\s+\<close>\<close>

fun skipSpaces :: "string \<Rightarrow> string" where
  "skipSpaces [] = []"
| "skipSpaces (c # cs) = (if isSpace c then skipSpaces cs else c # cs)"

definition spaces1 :: "string \<Rightarrow> string option" where
  "spaces1 s = (case s of [] \<Rightarrow> None | c # cs \<Rightarrow> if isSpace c then Some (skipSpaces cs) else None)"

text \<open>\<^verbatim>\<open>([^"]+)"\<close>: the captured text and what follows the closing quote.\<close>

fun untilQuote :: "string \<Rightarrow> (string \<times> string) option" where
  "untilQuote [] = None"
| "untilQuote (c # cs) =
     (if c = dquote then Some ([], cs)
      else (case untilQuote cs of None \<Rightarrow> None | Some (v, r) \<Rightarrow> Some (c # v, r)))"

definition quoted :: "string \<Rightarrow> (string \<times> string) option" where
  "quoted s = (case untilQuote s of
                 None \<Rightarrow> None
               | Some (v, r) \<Rightarrow> if v = [] then None else Some (v, r))"

text \<open>
  \<^verbatim>\<open>SEGMENT_START_RE\<close> and \<^verbatim>\<open>SEGMENT_END_RE\<close> of primitives/segments/parser.ts, at the
  head of \<open>s\<close>: the captured key (for a start marker) and the length of the match.
\<close>

definition matchSegmentStart :: "string \<Rightarrow> (string \<times> nat) option" where
  "matchSegmentStart s =
     Option.bind (lit ''<!--'' s) (\<lambda>r1.
     Option.bind (lit ''semcontext:segment'' (skipSpaces r1)) (\<lambda>r2.
     Option.bind (spaces1 r2) (\<lambda>r3.
     Option.bind (lit ''start'' r3) (\<lambda>r4.
     Option.bind (spaces1 r4) (\<lambda>r5.
     Option.bind (lit (''key='' @ [dquote]) r5) (\<lambda>r6.
     Option.bind (quoted r6) (\<lambda>(key, r7).
     Option.bind (lit ''-->'' (skipSpaces r7)) (\<lambda>r8.
       Some (key, length s - length r8)))))))))"

definition matchSegmentEnd :: "string \<Rightarrow> (unit \<times> nat) option" where
  "matchSegmentEnd s =
     Option.bind (lit ''<!--'' s) (\<lambda>r1.
     Option.bind (lit ''semcontext:segment'' (skipSpaces r1)) (\<lambda>r2.
     Option.bind (spaces1 r2) (\<lambda>r3.
     Option.bind (lit ''end'' r3) (\<lambda>r4.
     Option.bind (lit ''-->'' (skipSpaces r4)) (\<lambda>r5.
       Some ((), length s - length r5))))))"

text \<open>
  The loop \<^verbatim>\<open>while ((match = RE.exec(content)))\<close> of a global expression: the
  leftmost match at or after \<^verbatim>\<open>lastIndex\<close>, then on from the end of that match.
  Each result is the match's \<^verbatim>\<open>index\<close>, its capture and its length. A match of these
  patterns has at least four units; the step \<open>len - 1\<close> past the head keeps the
  recursion total without changing any result.
\<close>

record 'a RegExpMatch =
  m_index :: nat
  m_capture :: 'a
  m_length :: nat

function execAll :: "(string \<Rightarrow> ('a \<times> nat) option) \<Rightarrow> nat \<Rightarrow> string \<Rightarrow> 'a RegExpMatch list" where
  "execAll re pos [] = []"
| "execAll re pos (c # cs) =
     (case re (c # cs) of
        None \<Rightarrow> execAll re (pos + 1) cs
      | Some (capture, len) \<Rightarrow>
          \<lparr>m_index = pos, m_capture = capture, m_length = len\<rparr>
            # execAll re (pos + len) (drop (len - 1) cs))"
  by pat_completeness auto

termination
  by (relation "measure (\<lambda>(re, pos, s). length s)") auto

section \<open>Marker pairing (primitives/segments/parser.ts)\<close>

record MarkerRange =
  mr_id :: string
  startMarkerBegin :: nat
  startMarkerEnd :: nat
  endMarkerBegin :: nat
  endMarkerEnd :: nat

text \<open>
  What \<^verbatim>\<open>parseSegments\<close> of parser.ts throws. \<open>UndefinedMatch\<close> is the \<^verbatim>\<open>TypeError\<close> of
  reading \<^verbatim>\<open>endMatches[i]\<close> past the end, which the count check rules out.
\<close>

datatype ParseError =
    MismatchedMarkers nat nat
  | EndBeforeStart
  | NestedSegments string string
  | YamlFailure
  | UndefinedMatch

text \<open>
  The loop \<^verbatim>\<open>for (let i = 0; i < startMatches.length; i++)\<close> of \<^verbatim>\<open>parseMarkers\<close>, on
  the matches from \<open>i\<close> on; \<^verbatim>\<open>startMatches[i + 1]\<close> is the head of the remaining start
  matches.
\<close>

fun pairMarkers ::
  "nat \<Rightarrow> string RegExpMatch list \<Rightarrow> unit RegExpMatch list \<Rightarrow> MarkerRange list
     \<Rightarrow> ParseError + MarkerRange list" where
  "pairMarkers offsetAdjust [] endMatches markers = Inr markers"
| "pairMarkers offsetAdjust (start # starts) [] markers = Inl UndefinedMatch"
| "pairMarkers offsetAdjust (start # starts) (end # ends) markers =
     (if m_index end < m_index start + m_length start then Inl EndBeforeStart
      else if starts \<noteq> [] \<and> m_index (hd starts) < m_index end
           then Inl (NestedSegments (m_capture (hd starts)) (m_capture start))
      else pairMarkers offsetAdjust starts ends
             (markers @
              [\<lparr>mr_id = m_capture start,
                startMarkerBegin = m_index start + offsetAdjust,
                startMarkerEnd = m_index start + m_length start + offsetAdjust,
                endMarkerBegin = m_index end + offsetAdjust,
                endMarkerEnd = m_index end + m_length end + offsetAdjust\<rparr>]))"

definition startMatches :: "string \<Rightarrow> string RegExpMatch list" where
  "startMatches content = execAll matchSegmentStart 0 content"

definition endMatches :: "string \<Rightarrow> unit RegExpMatch list" where
  "endMatches content = execAll matchSegmentEnd 0 content"

definition parseMarkers :: "string \<Rightarrow> nat \<Rightarrow> ParseError + MarkerRange list" where
  "parseMarkers content offsetAdjust =
     (if length (startMatches content) \<noteq> length (endMatches content)
      then Inl (MismatchedMarkers (length (startMatches content)) (length (endMatches content)))
      else pairMarkers offsetAdjust (startMatches content) (endMatches content) [])"

text \<open>Marker texts, to write documents with.\<close>

definition startMarker :: "string \<Rightarrow> string" where
  "startMarker key = ''<!--semcontext:segment start key='' @ [dquote] @ key @ [dquote] @ ''-->''"

definition endMarker :: string where
  "endMarker = ''<!--semcontext:segment end-->''"

section \<open>Segment assembly (primitives/segments/parser.ts)\<close>

record ReturnConfig =
  rc_maxTokens :: rat

record GenerateConfig =
  gc_maxTokens :: rat
  gc_temperature :: "rat option"
  gc_iterations :: "rat option"

record SegmentSpec =
  sp_id :: string
  sp_type :: "string option"
  sp_audienceRole :: "string list option"
  sp_concepts :: "string list option"
  sp_boost :: "rat option"
  sp_return :: "ReturnConfig option"
  sp_generate :: "GenerateConfig option"

text \<open>\<open>fm_segments\<close> is \<^verbatim>\<open>frontmatter.semcontext?.segments\<close>.\<close>

record FrontmatterConfig =
  fm_id :: "string option"
  fm_title :: "string option"
  fm_description :: "string option"
  fm_segments :: "SegmentSpec list option"

record SegmentInstance =
  si_id :: string
  si_spec :: "SegmentSpec option"
  si_body :: string
  si_startByte :: nat
  si_endByte :: nat

record ParsedDoc =
  pd_frontmatter :: FrontmatterConfig
  pd_segments :: "SegmentInstance list"
  pd_frontmatterEndByte :: nat
  pd_contentWithoutFrontmatter :: string

text \<open>
  \<^verbatim>\<open>FRONTMATTER_RE = /^---\r?\n([\s\S]*?)\r?\n---\r?\n?/\<close> at the head of the
  document: the captured block and the length of the match. The lazy body grows one
  unit at a time until the closing line can be read.
\<close>

definition optional :: "char \<Rightarrow> string \<Rightarrow> string" where
  "optional c s = (case s of [] \<Rightarrow> [] | x # xs \<Rightarrow> if x = c then xs else x # xs)"

definition closeFrontmatter :: "string \<Rightarrow> string option" where
  "closeFrontmatter s =
     Option.bind (lit (newline # ''---'') (optional (CHR 0x0D) s)) (\<lambda>r.
       Some (optional newline (optional (CHR 0x0D) r)))"

fun lazyBody :: "string \<Rightarrow> (string \<times> string) option" where
  "lazyBody [] = (case closeFrontmatter [] of None \<Rightarrow> None | Some r \<Rightarrow> Some ([], r))"
| "lazyBody (c # cs) =
     (case closeFrontmatter (c # cs) of
        Some r \<Rightarrow> Some ([], r)
      | None \<Rightarrow> (case lazyBody cs of None \<Rightarrow> None | Some (body, r) \<Rightarrow> Some (c # body, r)))"

definition matchFrontmatter :: "string \<Rightarrow> (string \<times> nat) option" where
  "matchFrontmatter docText =
     Option.bind (lit ''---'' docText) (\<lambda>r1.
     Option.bind (lit [newline] (optional (CHR 0x0D) r1)) (\<lambda>r2.
     Option.bind (lazyBody r2) (\<lambda>(frontmatterYAML, r3).
       Some (frontmatterYAML, length docText - length r3))))"

text \<open>
  The loop that normalizes the specs after \<^verbatim>\<open>yaml.parse\<close>. On a role list
  \<^verbatim>\<open>normalizeAudienceRole\<close> keeps the strings, which are all of it here.
\<close>

definition normalizeAudienceRole :: "string list option \<Rightarrow> string list option" where
  "normalizeAudienceRole raw = (case raw of None \<Rightarrow> None | Some roles \<Rightarrow> Some roles)"

text \<open>\<^verbatim>\<open>if (!seg.boost) seg.boost = 1.0\<close>: an absent boost and a boost of \<open>0\<close> become the default\<close>

definition orDefault :: "rat option \<Rightarrow> rat \<Rightarrow> rat" where
  "orDefault x d = (case x of None \<Rightarrow> d | Some v \<Rightarrow> if v = 0 then d else v)"

definition normalizeSpec :: "SegmentSpec \<Rightarrow> SegmentSpec" where
  "normalizeSpec seg =
     seg\<lparr>sp_audienceRole := normalizeAudienceRole (sp_audienceRole seg),
         sp_boost := Some (orDefault (sp_boost seg) 1)\<rparr>"

definition normalizeFrontmatter :: "FrontmatterConfig \<Rightarrow> FrontmatterConfig" where
  "normalizeFrontmatter fm =
     fm\<lparr>fm_segments := (case fm_segments fm of None \<Rightarrow> None
                          | Some specs \<Rightarrow> Some (map normalizeSpec specs))\<rparr>"

definition emptyFrontmatter :: FrontmatterConfig where
  "emptyFrontmatter =
     \<lparr>fm_id = None, fm_title = None, fm_description = None, fm_segments = None\<rparr>"

text \<open>\<^verbatim>\<open>specMap.set(spec.id, spec)\<close> for every spec in turn: a later spec replaces an earlier one.\<close>

definition buildSpecMap :: "FrontmatterConfig \<Rightarrow> (string \<rightharpoonup> SegmentSpec)" where
  "buildSpecMap fm =
     (case fm_segments fm of
        None \<Rightarrow> Map.empty
      | Some specs \<Rightarrow> foldl (\<lambda>specMap spec. specMap(sp_id spec \<mapsto> spec)) Map.empty specs)"

text \<open>\<^verbatim>\<open>String.prototype.trim\<close>\<close>

definition trim :: "string \<Rightarrow> string" where
  "trim s = rev (dropWhile isSpace (rev (dropWhile isSpace s)))"

definition buildInstance :: "string \<Rightarrow> (string \<rightharpoonup> SegmentSpec) \<Rightarrow> MarkerRange \<Rightarrow> SegmentInstance" where
  "buildInstance docText specMap marker =
     \<lparr>si_id = mr_id marker,
      si_spec = specMap (mr_id marker),
      si_body = trim (substring docText (int (startMarkerEnd marker)) (int (endMarkerBegin marker))),
      si_startByte = startMarkerEnd marker,
      si_endByte = endMarkerBegin marker\<rparr>"

text \<open>
  \<^verbatim>\<open>parseSegments\<close>. The YAML parser is not part of the repository: \<open>yamlParse\<close>
  stands for \<^verbatim>\<open>yaml.parse(text) || {}\<close>, with \<open>None\<close> when the \<^verbatim>\<open>try\<close> block throws.
\<close>

definition extractFrontmatterPart ::
  "(string \<Rightarrow> FrontmatterConfig option) \<Rightarrow> string
     \<Rightarrow> ParseError + (FrontmatterConfig \<times> nat \<times> string)" where
  "extractFrontmatterPart yamlParse docText =
     (case matchFrontmatter docText of
        None \<Rightarrow> Inr (emptyFrontmatter, 0, docText)
      | Some (frontmatterYAML, len) \<Rightarrow>
          (case yamlParse frontmatterYAML of
             None \<Rightarrow> Inl YamlFailure
           | Some fm \<Rightarrow> Inr (normalizeFrontmatter fm, len, substringFrom docText (int len))))"

definition parseSegments ::
  "(string \<Rightarrow> FrontmatterConfig option) \<Rightarrow> string \<Rightarrow> ParseError + ParsedDoc" where
  "parseSegments yamlParse docText =
     (case extractFrontmatterPart yamlParse docText of
        Inl err \<Rightarrow> Inl err
      | Inr (fm, frontmatterEnd, content) \<Rightarrow>
          (case parseMarkers content frontmatterEnd of
             Inl err \<Rightarrow> Inl err
           | Inr markers \<Rightarrow>
               Inr \<lparr>pd_frontmatter = fm,
                    pd_segments = map (buildInstance docText (buildSpecMap fm)) markers,
                    pd_frontmatterEndByte = frontmatterEnd,
                    pd_contentWithoutFrontmatter = content\<rparr>))"

text \<open>The message of each error, as the source builds it.\<close>

fun digitsOf :: "nat \<Rightarrow> string" where
  "digitsOf n =
     (if n < 10 then [''0123456789'' ! n]
      else digitsOf (n div 10) @ [''0123456789'' ! (n mod 10)])"

declare digitsOf.simps [simp del]

fun messageOf :: "ParseError \<Rightarrow> string" where
  "messageOf (MismatchedMarkers s e) =
     ''Mismatched segment markers: found '' @ digitsOf s @ '' start markers and ''
       @ digitsOf e @ '' end markers''"
| "messageOf EndBeforeStart = ''Segment end marker appears before start marker ends''"
| "messageOf (NestedSegments id2 id1) =
     ''Nested segments not allowed: segment '' @ [CHR 0x27] @ id2 @ [CHR 0x27]
       @ '' starts before '' @ [CHR 0x27] @ id1 @ [CHR 0x27] @ '' ends''"
| "messageOf YamlFailure = ''Failed to parse YAML frontmatter''"
| "messageOf UndefinedMatch = ''Cannot read properties of undefined''"

section \<open>Segment validation (primitives/segments: validateSegments, validateLoose)\<close>

record ValidationError =
  ve_segmentId :: "string option"
  ve_field :: "string option"
  ve_message :: string

definition finding :: "string option \<Rightarrow> string option \<Rightarrow> string \<Rightarrow> ValidationError" where
  "finding segId field msg = \<lparr>ve_segmentId = segId, ve_field = field, ve_message = msg\<rparr>"

text \<open>The range checks that \<^verbatim>\<open>validateSegments\<close> and \<^verbatim>\<open>validateLoose\<close> share.\<close>

definition returnRangeFindings :: "SegmentSpec \<Rightarrow> ValidationError list" where
  "returnRangeFindings spec =
     (case sp_return spec of
        None \<Rightarrow> []
      | Some r \<Rightarrow>
          if rc_maxTokens r < 0
          then [finding (Some (sp_id spec)) (Some ''return.max_tokens'')
                  ''max_tokens must be non-negative'']
          else [])"

definition generateRangeFindings :: "bool \<Rightarrow> SegmentSpec \<Rightarrow> ValidationError list" where
  "generateRangeFindings withIterations spec =
     (case sp_generate spec of
        None \<Rightarrow> []
      | Some g \<Rightarrow>
          (if gc_maxTokens g < 0
           then [finding (Some (sp_id spec)) (Some ''generate.max_tokens'')
                   ''max_tokens must be non-negative'']
           else []) @
          (case gc_temperature g of
             None \<Rightarrow> []
           | Some t \<Rightarrow>
               if t < 0 \<or> t > 2
               then [finding (Some (sp_id spec)) (Some ''generate.temperature'')
                       ''temperature must be between 0.0 and 2.0'']
               else []) @
          (case gc_iterations g of
             None \<Rightarrow> []
           | Some n \<Rightarrow>
               if withIterations \<and> n < 0
               then [finding (Some (sp_id spec)) (Some ''generate.iterations'')
                       ''iterations must be non-negative'']
               else []))"

definition boostFindings :: "SegmentSpec \<Rightarrow> ValidationError list" where
  "boostFindings spec =
     (case sp_boost spec of
        None \<Rightarrow> []
      | Some b \<Rightarrow>
          if b < 0
          then [finding (Some (sp_id spec)) (Some ''boost'') ''boost must be non-negative'']
          else [])"

definition duplicateSpecFindings :: "string set \<Rightarrow> SegmentSpec \<Rightarrow> ValidationError list" where
  "duplicateSpecFindings seenIDs spec =
     (if sp_id spec \<in> seenIDs
      then [finding (Some (sp_id spec)) (Some ''id'') ''duplicate segment ID in frontmatter'']
      else [])"

definition bothConfigFindings :: "SegmentSpec \<Rightarrow> ValidationError list" where
  "bothConfigFindings spec =
     (if sp_return spec \<noteq> None \<and> sp_generate spec \<noteq> None
      then [finding (Some (sp_id spec)) None
              (''segment cannot have both '' @ [CHR 0x27] @ ''return'' @ [CHR 0x27] @ '' and ''
                 @ [CHR 0x27] @ ''generate'' @ [CHR 0x27] @ '' configuration'')]
      else [])"

text \<open>One turn of the first loop of \<^verbatim>\<open>validateSegments\<close>; an empty id ends the turn early.\<close>

definition strictSpecFindings :: "string set \<Rightarrow> SegmentSpec \<Rightarrow> ValidationError list" where
  "strictSpecFindings seenIDs spec =
     duplicateSpecFindings seenIDs spec @
     (if sp_id spec = [] then [finding None (Some ''id'') ''segment ID cannot be empty'']
      else
        (if sp_return spec = None \<and> sp_generate spec = None
         then [finding (Some (sp_id spec)) None
                 (''segment must have either '' @ [CHR 0x27] @ ''return'' @ [CHR 0x27] @ '' or ''
                    @ [CHR 0x27] @ ''generate'' @ [CHR 0x27] @ '' configuration'')]
         else []) @
        bothConfigFindings spec @
        returnRangeFindings spec @
        generateRangeFindings True spec @
        boostFindings spec)"

text \<open>One turn of the spec loop of \<^verbatim>\<open>validateLoose\<close>.\<close>

definition looseSpecFindings :: "string set \<Rightarrow> SegmentSpec \<Rightarrow> ValidationError list" where
  "looseSpecFindings seenIDs spec =
     duplicateSpecFindings seenIDs spec @
     bothConfigFindings spec @
     returnRangeFindings spec @
     generateRangeFindings False spec @
     boostFindings spec"

fun specLoop ::
  "(string set \<Rightarrow> SegmentSpec \<Rightarrow> ValidationError list) \<Rightarrow> SegmentSpec list
     \<Rightarrow> ValidationError list \<times> string set \<Rightarrow> ValidationError list \<times> string set" where
  "specLoop turn [] st = st"
| "specLoop turn (spec # specs) (errors, seenIDs) =
     specLoop turn specs (errors @ turn seenIDs spec, insert (sp_id spec) seenIDs)"

definition duplicateMarkerFindings :: "string set \<Rightarrow> SegmentInstance \<Rightarrow> ValidationError list" where
  "duplicateMarkerFindings markerIDs seg =
     (if si_id seg \<in> markerIDs
      then [finding (Some (si_id seg)) None ''duplicate segment ID in document markers'']
      else [])"

definition markerWithoutSpec :: string where
  "markerWithoutSpec = ''segment marker has no corresponding frontmatter spec''"

definition specWithoutMarker :: string where
  "specWithoutMarker = ''frontmatter spec has no corresponding segment marker in document''"

text \<open>One turn of the loop over \<^verbatim>\<open>parsed.segments\<close>, strict and loose.\<close>

definition strictMarkerFindings :: "string set \<Rightarrow> SegmentInstance \<Rightarrow> ValidationError list" where
  "strictMarkerFindings markerIDs seg =
     duplicateMarkerFindings markerIDs seg @
     (if si_spec seg = None then [finding (Some (si_id seg)) None markerWithoutSpec] else [])"

fun markerLoop ::
  "(string set \<Rightarrow> SegmentInstance \<Rightarrow> ValidationError list) \<Rightarrow> SegmentInstance list
     \<Rightarrow> ValidationError list \<times> string set \<Rightarrow> ValidationError list \<times> string set" where
  "markerLoop turn [] st = st"
| "markerLoop turn (seg # segs) (errors, markerIDs) =
     markerLoop turn segs (errors @ turn markerIDs seg, insert (si_id seg) markerIDs)"

fun missingMarkerLoop ::
  "string set \<Rightarrow> SegmentSpec list \<Rightarrow> ValidationError list \<Rightarrow> ValidationError list" where
  "missingMarkerLoop markerIDs [] errors = errors"
| "missingMarkerLoop markerIDs (spec # specs) errors =
     missingMarkerLoop markerIDs specs
       (if sp_id spec \<notin> markerIDs
        then errors @ [finding (Some (sp_id spec)) None specWithoutMarker]
        else errors)"

definition specsOf :: "ParsedDoc \<Rightarrow> SegmentSpec list" where
  "specsOf parsed = (case fm_segments (pd_frontmatter parsed) of None \<Rightarrow> [] | Some specs \<Rightarrow> specs)"

definition validateSegments :: "ParsedDoc \<Rightarrow> ValidationError list" where
  "validateSegments parsed =
     (case specLoop strictSpecFindings (specsOf parsed) ([], {}) of
        (errors1, seenIDs) \<Rightarrow>
          (case markerLoop strictMarkerFindings (pd_segments parsed) (errors1, {}) of
             (errors2, markerIDs) \<Rightarrow> missingMarkerLoop markerIDs (specsOf parsed) errors2))"

definition validateStrict :: "ParsedDoc \<Rightarrow> ValidationError list" where
  "validateStrict parsed = validateSegments parsed"

definition validateLoose :: "ParsedDoc \<Rightarrow> ValidationError list" where
  "validateLoose parsed =
     (case specLoop looseSpecFindings (specsOf parsed) ([], {}) of
        (errors1, seenIDs) \<Rightarrow>
          fst (markerLoop duplicateMarkerFindings (pd_segments parsed) (errors1, {})))"

section \<open>The line parser (src/segments.ts)\<close>

text \<open>
  The repository has a second \<^verbatim>\<open>parseSegments\<close>, in src/segments.ts, that reads the
  document line by line; it is \<open>parseSegmentsByLine\<close> here.
\<close>

record ParsedSegment =
  ps_key :: string
  ps_type :: "string option"
  ps_audience :: "string list option"
  ps_content :: string
  ps_startLine :: nat
  ps_endLine :: nat

text \<open>\<^verbatim>\<open>currentSegment\<close>, a partial \<^verbatim>\<open>ParsedSegment\<close>\<close>

record OpenSegment =
  os_key :: string
  os_type :: "string option"
  os_audience :: "string list option"
  os_startLine :: nat

datatype LineError =
    NestedMarkers nat
  | UnmatchedEnd nat
  | UnclosedMarker string

fun lineMessageOf :: "LineError \<Rightarrow> string" where
  "lineMessageOf (NestedMarkers line) =
     ''Nested segment markers not allowed at line '' @ digitsOf line"
| "lineMessageOf (UnmatchedEnd line) = ''Unmatched end marker at line '' @ digitsOf line"
| "lineMessageOf (UnclosedMarker key) = ''Unclosed segment marker: '' @ key"

text \<open>\<^verbatim>\<open>s.split(c)\<close> and \<^verbatim>\<open>parts.join('\n')\<close>\<close>

fun splitOn :: "char \<Rightarrow> string \<Rightarrow> string list" where
  "splitOn sep [] = [[]]"
| "splitOn sep (c # cs) =
     (if c = sep then [] # splitOn sep cs
      else (case splitOn sep cs of [] \<Rightarrow> [[c]] | part # parts \<Rightarrow> (c # part) # parts))"

fun joinLines :: "string list \<Rightarrow> string" where
  "joinLines [] = []"
| "joinLines [l] = l"
| "joinLines (l # ls) = l @ newline # joinLines ls"

text \<open>
  The start pattern of segments.ts, with its two optional attributes, and the end
  pattern, at the head of \<open>s\<close>; \<^verbatim>\<open>line.match(re)\<close> looks for the leftmost match.
\<close>

definition optionalAttribute :: "string \<Rightarrow> string \<Rightarrow> string option \<times> string" where
  "optionalAttribute name s =
     (case Option.bind (spaces1 s) (\<lambda>r. Option.bind (lit (name @ ''='' @ [dquote]) r) quoted) of
        None \<Rightarrow> (None, s)
      | Some (v, r) \<Rightarrow> (Some v, r))"

definition matchLineStart :: "string \<Rightarrow> (string \<times> string option \<times> string option) option" where
  "matchLineStart s =
     Option.bind (lit ''<!--semcontext:segment'' s) (\<lambda>r1.
     Option.bind (spaces1 r1) (\<lambda>r2.
     Option.bind (lit ''start'' r2) (\<lambda>r3.
     Option.bind (spaces1 r3) (\<lambda>r4.
     Option.bind (lit (''key='' @ [dquote]) r4) (\<lambda>r5.
     Option.bind (quoted r5) (\<lambda>(key, r6).
       (case optionalAttribute ''type'' r6 of
          (type, r7) \<Rightarrow>
            (case optionalAttribute ''audience'' r7 of
               (audience, r8) \<Rightarrow>
                 Option.bind (lit ''-->'' (skipSpaces r8)) (\<lambda>r9.
                   Some (key, type, audience))))))))))"

definition matchLineEnd :: "string \<Rightarrow> unit option" where
  "matchLineEnd s =
     Option.bind (lit ''<!--semcontext:segment'' s) (\<lambda>r1.
     Option.bind (spaces1 r1) (\<lambda>r2.
     Option.bind (lit ''end'' r2) (\<lambda>r3.
     Option.bind (lit ''-->'' (skipSpaces r3)) (\<lambda>r4. Some ()))))"

fun searchLine :: "(string \<Rightarrow> 'a option) \<Rightarrow> string \<Rightarrow> 'a option" where
  "searchLine re [] = re []"
| "searchLine re (c # cs) =
     (case re (c # cs) of Some m \<Rightarrow> Some m | None \<Rightarrow> searchLine re cs)"

text \<open>
  The loop \<^verbatim>\<open>for (let i = 0; i < lines.length; i++)\<close> from line \<open>i\<close> on, with its three
  variables; a \<^verbatim>\<open>throw\<close> ends it with \<open>Inl\<close>.
\<close>

fun lineLoop ::
  "string list \<Rightarrow> nat \<Rightarrow> OpenSegment option \<Rightarrow> string list \<Rightarrow> ParsedSegment list
     \<Rightarrow> LineError + (OpenSegment option \<times> ParsedSegment list)" where
  "lineLoop [] i currentSegment contentLines segments = Inr (currentSegment, segments)"
| "lineLoop (line # rest) i currentSegment contentLines segments =
     (case searchLine matchLineStart line of
        Some (key, type, audience) \<Rightarrow>
          (case currentSegment of
             Some cur \<Rightarrow> Inl (NestedMarkers (i + 1))
           | None \<Rightarrow>
               lineLoop rest (i + 1)
                 (Some \<lparr>os_key = key, os_type = type,
                        os_audience = map_option (\<lambda>a. map trim (splitOn (CHR '','') a)) audience,
                        os_startLine = i + 1\<rparr>)
                 [] segments)
      | None \<Rightarrow>
          (case searchLine matchLineEnd line of
             Some u \<Rightarrow>
               (case currentSegment of
                  None \<Rightarrow> Inl (UnmatchedEnd (i + 1))
                | Some cur \<Rightarrow>
                    lineLoop rest (i + 1) None []
                      (segments @
                       [\<lparr>ps_key = os_key cur, ps_type = os_type cur,
                         ps_audience = os_audience cur,
                         ps_content = joinLines contentLines,
                         ps_startLine = os_startLine cur, ps_endLine = i + 1\<rparr>]))
           | None \<Rightarrow>
               lineLoop rest (i + 1) currentSegment
                 (if currentSegment \<noteq> None then contentLines @ [line] else contentLines)
                 segments))"

definition parseSegmentsByLine :: "string \<Rightarrow> LineError + ParsedSegment list" where
  "parseSegmentsByLine markdown =
     (case lineLoop (splitOn newline markdown) 0 None [] [] of
        Inl err \<Rightarrow> Inl err
      | Inr (Some cur, segments) \<Rightarrow> Inl (UnclosedMarker (os_key cur))
      | Inr (None, segments) \<Rightarrow> Inr segments)"

text \<open>
  The marker lines of a document, in order, each with its line number: what the
  line parser can see of the markers.
\<close>

datatype MarkerLine = StartLine string | EndLine

definition markerOfLine :: "string \<Rightarrow> MarkerLine option" where
  "markerOfLine line =
     (case searchLine matchLineStart line of
        Some (key, type, audience) \<Rightarrow> Some (StartLine key)
      | None \<Rightarrow> (case searchLine matchLineEnd line of Some u \<Rightarrow> Some EndLine | None \<Rightarrow> None))"

fun markerLinesFrom :: "nat \<Rightarrow> string list \<Rightarrow> (nat \<times> MarkerLine) list" where
  "markerLinesFrom i [] = []"
| "markerLinesFrom i (line # rest) =
     (case markerOfLine line of
        None \<Rightarrow> markerLinesFrom (i + 1) rest
      | Some m \<Rightarrow> (i + 1, m) # markerLinesFrom (i + 1) rest)"

definition markerLines :: "string \<Rightarrow> (nat \<times> MarkerLine) list" where
  "markerLines markdown = markerLinesFrom 0 (splitOn newline markdown)"

text \<open>Start and end lines in turn, from a start line to an end line.\<close>

fun paired :: "MarkerLine list \<Rightarrow> bool" where
  "paired [] = True"
| "paired (StartLine key # EndLine # rest) = paired rest"
| "paired other = False"

section \<open>Nesting and ordering of marker matches\<close>

text \<open>
  The two tests of the pairing loop at turn \<open>i\<close>, on the matches of a text:
  \<^verbatim>\<open>startMatches[i + 1].index < end.index\<close> and the negation of
  \<^verbatim>\<open>end.index < start.index + start[0].length\<close>.
\<close>

definition nestedAt :: "string RegExpMatch list \<Rightarrow> unit RegExpMatch list \<Rightarrow> nat \<Rightarrow> bool" where
  "nestedAt starts ends i \<longleftrightarrow> m_index (starts ! Suc i) < m_index (ends ! i)"

definition orderedAt :: "string RegExpMatch list \<Rightarrow> unit RegExpMatch list \<Rightarrow> nat \<Rightarrow> bool" where
  "orderedAt starts ends i \<longleftrightarrow>
     m_index (starts ! i) + m_length (starts ! i) \<le> m_index (ends ! i)"

text \<open>
  Documents with a segment inside another: on one line, as in the specification, and
  line by line, as in the repository's test "should throw error on nested segments".
\<close>

definition nestedOnOneLine :: string where
  "nestedOnOneLine =
     startMarker ''A'' @ ''text'' @ startMarker ''B'' @ ''...'' @ endMarker @ ''text'' @ endMarker"

definition nestedOnLines :: string where
  "nestedOnLines =
     startMarker ''outer'' @ [newline] @ startMarker ''inner'' @ [newline] @
     ''Content'' @ [newline] @ endMarker @ [newline] @ endMarker @ [newline]"

text \<open>A start marker that is never closed, and an end marker that nothing opened.\<close>

definition unclosedDoc :: string where
  "unclosedDoc = startMarker ''test'' @ [newline] @ ''Content without end marker'' @ [newline]"

definition loneEndDoc :: string where
  "loneEndDoc = ''Some content'' @ [newline] @ endMarker @ [newline]"

text \<open>
  The markers as a two-state machine, the state being the key of the open segment:
  the line parser's control flow with everything else left out.
\<close>

fun runMarkers :: "(nat \<times> MarkerLine) list \<Rightarrow> string option \<Rightarrow> LineError + string option" where
  "runMarkers [] cur = Inr cur"
| "runMarkers ((n, StartLine key) # ms) cur =
     (case cur of Some k \<Rightarrow> Inl (NestedMarkers n) | None \<Rightarrow> runMarkers ms (Some key))"
| "runMarkers ((n, EndLine) # ms) cur =
     (case cur of None \<Rightarrow> Inl (UnmatchedEnd n) | Some k \<Rightarrow> runMarkers ms None)"

text \<open>
  A document whose frontmatter declares the segment \<open>intro\<close> and whose body marks the
  segment \<open>body\<close>, with a parser stub that answers the frontmatter's content.
\<close>

definition partialDoc :: string where
  "partialDoc =
     ''---'' @ [newline] @ ''semcontext: ...'' @ [newline] @ ''---'' @ [newline] @
     ''# Title'' @ [newline] @ startMarker ''body'' @ [newline] @ ''Text.'' @ [newline] @
     endMarker @ [newline]"

definition introSpec :: SegmentSpec where
  "introSpec =
     \<lparr>sp_id = ''intro'', sp_type = None, sp_audienceRole = None, sp_concepts = None,
      sp_boost = None, sp_return = Some \<lparr>rc_maxTokens = 100\<rparr>, sp_generate = None\<rparr>"

definition partialFrontmatter :: FrontmatterConfig where
  "partialFrontmatter =
     \<lparr>fm_id = None, fm_title = None, fm_description = None, fm_segments = Some [introSpec]\<rparr>"

definition partialYaml :: "string \<Rightarrow> FrontmatterConfig option" where
  "partialYaml text = Some partialFrontmatter"

text \<open>
  The same body under a frontmatter block that is not YAML, an unclosed flow sequence,
  and a \<^verbatim>\<open>yaml.parse\<close> that throws on it.
\<close>

definition malformedYamlDoc :: string where
  "malformedYamlDoc =
     ''---'' @ [newline] @ ''semcontext: ['' @ [newline] @ ''---'' @ [newline] @
     ''# Title'' @ [newline] @ startMarker ''body'' @ [newline] @ ''Text.'' @ [newline] @
     endMarker @ [newline]"

definition strictYaml :: "string \<Rightarrow> FrontmatterConfig option" where
  "strictYaml text = (if text = ''semcontext: ['' then None else Some emptyFrontmatter)"

section \<open>Journeys (validateJourney, hasCycles)\<close>

datatype NodeType = Stage | Milestone | Decision | JumpOff

record NodeConnection =
  target_node_id :: "string option"
  target_journey :: "string option"
  nc_label :: "string option"
  nc_condition :: "string option"

record JourneyNode =
  jn_id :: string
  jn_type :: NodeType
  jn_key :: string
  jn_name :: string
  jn_connections :: "NodeConnection list"

record Journey =
  j_id :: string
  j_key :: string
  j_name :: string
  j_projects :: "string list"
  j_nodes :: "JourneyNode list"

text \<open>
  \<^verbatim>\<open>node.connections.map(c => c.target_node_id).filter(Boolean)\<close>: the target ids
  that are present and not the empty string.
\<close>

fun targetsOf :: "NodeConnection list \<Rightarrow> string list" where
  "targetsOf [] = []"
| "targetsOf (c # cs) =
     (case target_node_id c of
        None \<Rightarrow> targetsOf cs
      | Some t \<Rightarrow> if t = [] then targetsOf cs else t # targetsOf cs)"

text \<open>The adjacency \<^verbatim>\<open>Map\<close>: \<^verbatim>\<open>graph.set(node.id, ...)\<close> for every node in turn.\<close>

fun buildGraph :: "JourneyNode list \<Rightarrow> (string \<rightharpoonup> string list) \<Rightarrow> (string \<rightharpoonup> string list)" where
  "buildGraph [] graph = graph"
| "buildGraph (node # nodes) graph =
     buildGraph nodes (graph(jn_id node \<mapsto> targetsOf (jn_connections node)))"

text \<open>\<^verbatim>\<open>graph.get(nodeId) || []\<close>\<close>

definition neighborsOf :: "(string \<rightharpoonup> string list) \<Rightarrow> string \<Rightarrow> string list" where
  "neighborsOf graph nodeId = (case graph nodeId of None \<Rightarrow> [] | Some ns \<Rightarrow> ns)"

text \<open>
  The inner function \<^verbatim>\<open>dfs\<close> of \<^verbatim>\<open>hasCycles\<close> and its \<^verbatim>\<open>for\<close> loop over the neighbors.
  The two sets \<^verbatim>\<open>visited\<close> and \<^verbatim>\<open>recStack\<close> are threaded through as a pair. The source
  bounds the recursion by the call stack alone; \<open>depth\<close> counts the nested calls that
  are left, and \<open>None\<close> says they were used up.
\<close>

fun dfs ::
  "nat \<Rightarrow> (string \<rightharpoonup> string list) \<Rightarrow> string \<Rightarrow> string set \<times> string set
     \<Rightarrow> (bool \<times> string set \<times> string set) option"
and dfsNeighbors ::
  "nat \<Rightarrow> (string \<rightharpoonup> string list) \<Rightarrow> string \<Rightarrow> string list \<Rightarrow> string set \<times> string set
     \<Rightarrow> (bool \<times> string set \<times> string set) option" where
  "dfs 0 graph nodeId st = None"
| "dfs (Suc depth) graph nodeId (visited, recStack) =
     dfsNeighbors depth graph nodeId (neighborsOf graph nodeId)
       (insert nodeId visited, insert nodeId recStack)"
| "dfsNeighbors depth graph nodeId [] (visited, recStack) =
     Some (False, visited, recStack - {nodeId})"
| "dfsNeighbors depth graph nodeId (neighbor # rest) (visited, recStack) =
     (if neighbor \<notin> visited then
        (case dfs depth graph neighbor (visited, recStack) of
           None \<Rightarrow> None
         | Some (found, st) \<Rightarrow>
             if found then Some (True, st) else dfsNeighbors depth graph nodeId rest st)
      else if neighbor \<in> recStack then Some (True, visited, recStack)
      else dfsNeighbors depth graph nodeId rest (visited, recStack))"

text \<open>The loop \<^verbatim>\<open>for (const node of nodes)\<close> that starts a traversal at each unvisited node.\<close>

fun hasCyclesLoop ::
  "nat \<Rightarrow> (string \<rightharpoonup> string list) \<Rightarrow> JourneyNode list \<Rightarrow> string set \<times> string set
     \<Rightarrow> bool option" where
  "hasCyclesLoop depth graph [] st = Some False"
| "hasCyclesLoop depth graph (node # nodes) (visited, recStack) =
     (if jn_id node \<notin> visited then
        (case dfs depth graph (jn_id node) (visited, recStack) of
           None \<Rightarrow> None
         | Some (found, st) \<Rightarrow>
             if found then Some True else hasCyclesLoop depth graph nodes st)
      else hasCyclesLoop depth graph nodes (visited, recStack))"

definition hasCycles :: "nat \<Rightarrow> JourneyNode list \<Rightarrow> bool option" where
  "hasCycles depth nodes = hasCyclesLoop depth (buildGraph nodes Map.empty) nodes ({}, {})"

text \<open>The loop over the nodes in \<^verbatim>\<open>validateJourney\<close>; its loop over the connections pushes nothing.\<close>

fun nodeLoop :: "JourneyNode list \<Rightarrow> string list \<times> string set \<Rightarrow> string list \<times> string set" where
  "nodeLoop [] st = st"
| "nodeLoop (node # nodes) (errors, nodeIds) =
     nodeLoop nodes
       (errors @
        (if jn_id node = [] then [''Node ID is required''] else []) @
        (if jn_id node \<in> nodeIds then [''Duplicate node ID: '' @ jn_id node] else []),
        insert (jn_id node) nodeIds)"

definition cycleFinding :: string where
  "cycleFinding = ''Journey graph contains cycles (must be DAG)''"

definition validateJourney :: "nat \<Rightarrow> Journey \<Rightarrow> string list option" where
  "validateJourney depth journey =
     (let errors =
            (if j_id journey = [] then [''Journey ID is required''] else []) @
            (if j_key journey = [] then [''Journey key is required''] else []) @
            (if j_name journey = [] then [''Journey name is required''] else []) @
            (if j_projects journey = [] then [''At least one project required''] else []) @
            (if j_nodes journey = [] then [''At least one node required''] else []);
          errors' = fst (nodeLoop (j_nodes journey) (errors, {}))
      in case hasCycles depth (j_nodes journey) of
           None \<Rightarrow> None
         | Some found \<Rightarrow> Some (if found then errors' @ [cycleFinding] else errors'))"

text \<open>
  The directed graph of the specification: an edge from a node's id to the
  \<^verbatim>\<open>target_node_id\<close> of each of its connections. A connection that has a
  \<^verbatim>\<open>target_journey\<close> only gives no edge.
\<close>

definition journeyEdges :: "JourneyNode list \<Rightarrow> (string \<times> string) set" where
  "journeyEdges nodes =
     {(u, v). \<exists>node \<in> set nodes. \<exists>c \<in> set (jn_connections node).
                u = jn_id node \<and> target_node_id c = Some v}"

definition cyclic :: "(string \<times> string) set \<Rightarrow> bool" where
  "cyclic edges \<longleftrightarrow> (\<exists>u. (u, u) \<in> edges\<^sup>+)"

text \<open>An upper bound on the number of different ids in a journey.\<close>

definition idCount :: "JourneyNode list \<Rightarrow> nat" where
  "idCount nodes = length nodes + length (concat (map (\<lambda>n. targetsOf (jn_connections n)) nodes))"

text \<open>Nodes with connections to the given ids, and the journeys of the specification's example.\<close>

definition stage :: "string \<Rightarrow> string list \<Rightarrow> JourneyNode" where
  "stage i targets =
     \<lparr>jn_id = i, jn_type = Stage, jn_key = i, jn_name = i,
      jn_connections =
        map (\<lambda>t. \<lparr>target_node_id = Some t, target_journey = None,
                  nc_label = None, nc_condition = None\<rparr>) targets\<rparr>"

definition journeyOf :: "JourneyNode list \<Rightarrow> Journey" where
  "journeyOf nodes =
     \<lparr>j_id = ''j1'', j_key = ''onboarding'', j_name = ''Onboarding'',
      j_projects = [''p1''], j_nodes = nodes\<rparr>"

definition triangle :: "JourneyNode list" where
  "triangle = [stage ''A'' [''B''], stage ''B'' [''C''], stage ''C'' [''A'']]"

definition openPath :: "JourneyNode list" where
  "openPath = [stage ''A'' [''B''], stage ''B'' [''C''], stage ''C'' []]"

definition jumpOff :: JourneyNode where
  "jumpOff =
     \<lparr>jn_id = ''A'', jn_type = JumpOff, jn_key = ''a'', jn_name = ''a'',
      jn_connections =
        [\<lparr>target_node_id = None, target_journey = Some ''journey:@other'',
          nc_label = None, nc_condition = None\<rparr>]\<rparr>"

definition twiceA :: "JourneyNode list" where
  "twiceA = [stage ''A'' [''A''], stage ''A'' []]"

definition emptyIdLoop :: "JourneyNode list" where
  "emptyIdLoop = [stage [] [[]]]"

section \<open>The traversal's invariant\<close>

text \<open>
  The edges of an adjacency map, the ids that are visited and off the recursion stack
  (finished), and what holds between two calls of \<^verbatim>\<open>dfs\<close> as long as no cycle was
  reported: the stack lies within the visited ids, these within the ids \<open>U\<close> of the
  journey, and the finished ids are closed under the edges and lie on no cycle.
\<close>

definition graphEdges :: "(string \<rightharpoonup> string list) \<Rightarrow> (string \<times> string) set" where
  "graphEdges graph = {(u, v). v \<in> set (neighborsOf graph u)}"

definition finished :: "string set \<times> string set \<Rightarrow> string set" where
  "finished st = fst st - snd st"

definition traversalInv ::
  "(string \<rightharpoonup> string list) \<Rightarrow> string set \<Rightarrow> string set \<times> string set \<Rightarrow> bool" where
  "traversalInv graph U st \<longleftrightarrow>
     snd st \<subseteq> fst st \<and> fst st \<subseteq> U \<and>
     (\<forall>u \<in> finished st. set (neighborsOf graph u) \<subseteq> finished st) \<and>
     (\<forall>u \<in> finished st. (u, u) \<notin> (graphEdges graph)\<^sup>+)"

text \<open>What a call of \<^verbatim>\<open>dfs\<close>, and a run of its loop, leave behind.\<close>

definition dfsPost ::
  "(string \<rightharpoonup> string list) \<Rightarrow> string set \<Rightarrow> string \<Rightarrow> string set \<times> string set
     \<Rightarrow> (bool \<times> string set \<times> string set) option \<Rightarrow> bool" where
  "dfsPost graph U nodeId st res \<longleftrightarrow>
     (case res of
        None \<Rightarrow> False
      | Some (found, st') \<Rightarrow>
          if found then cyclic (graphEdges graph)
          else snd st' = snd st \<and> fst st \<subseteq> fst st' \<and> nodeId \<in> fst st' \<and>
               traversalInv graph U st')"

definition loopPost ::
  "(string \<rightharpoonup> string list) \<Rightarrow> string set \<Rightarrow> string \<Rightarrow> string set \<times> string set
     \<Rightarrow> (bool \<times> string set \<times> string set) option \<Rightarrow> bool" where
  "loopPost graph U nodeId st res \<longleftrightarrow>
     (case res of
        None \<Rightarrow> False
      | Some (found, st') \<Rightarrow>
          if found then cyclic (graphEdges graph)
          else snd st' = snd st - {nodeId} \<and> fst st \<subseteq> fst st' \<and>
               traversalInv graph U st')"

text \<open>All ids of a journey: of its nodes and of their targets.\<close>

definition allIds :: "JourneyNode list \<Rightarrow> string set" where
  "allIds nodes =
     set (map jn_id nodes) \<union> set (concat (map (\<lambda>n. targetsOf (jn_connections n)) nodes))"

text \<open>What a call of \<^verbatim>\<open>dfs\<close>, and a run of its loop on the neighbors left, start from.\<close>

definition dfsPre ::
  "(string \<rightharpoonup> string list) \<Rightarrow> string set \<Rightarrow> string \<Rightarrow> string set \<times> string set \<Rightarrow> nat \<Rightarrow> bool" where
  "dfsPre graph U nodeId st depth \<longleftrightarrow>
     traversalInv graph U st \<and> nodeId \<notin> fst st \<and> nodeId \<in> U \<and>
     (\<forall>r \<in> snd st. (r, nodeId) \<in> (graphEdges graph)\<^sup>+) \<and>
     card (U - fst st) \<le> depth"

definition loopPre ::
  "(string \<rightharpoonup> string list) \<Rightarrow> string set \<Rightarrow> string \<Rightarrow> string list
     \<Rightarrow> string set \<times> string set \<Rightarrow> nat \<Rightarrow> bool" where
  "loopPre graph U nodeId neighbors st depth \<longleftrightarrow>
     traversalInv graph U st \<and> nodeId \<in> snd st \<and>
     (\<forall>r \<in> snd st. (r, nodeId) \<in> (graphEdges graph)\<^sup>*) \<and>
     set neighbors \<subseteq> set (neighborsOf graph nodeId) \<and>
     set (neighborsOf graph nodeId) \<subseteq> set neighbors \<union> finished st \<and>
     card (U - fst st) \<le> depth"

text \<open>What the loop over the nodes answers when it starts with the visited ids \<open>V\<close>.\<close>

definition startsPost ::
  "(string \<rightharpoonup> string list) \<Rightarrow> string set \<Rightarrow> string set \<Rightarrow> JourneyNode list
     \<Rightarrow> bool option \<Rightarrow> bool" where
  "startsPost graph U V nodes res \<longleftrightarrow>
     (case res of
        None \<Rightarrow> False
      | Some found \<Rightarrow>
          if found then cyclic (graphEdges graph)
          else \<exists>V'. V \<subseteq> V' \<and> jn_id ` set nodes \<subseteq> V' \<and> traversalInv graph U (V', {}))"

section \<open>Properties of the string primitives\<close>

lemma indexOf_absent: "c \<notin> set xs \<Longrightarrow> indexOf c xs = -1"
  by (induction xs) auto

lemma indexOf_nonneg_or_absent: "indexOf c xs = -1 \<or> 0 \<le> indexOf c xs"
  by (induction xs) (auto simp: Let_def)

lemma indexOf_first: "c \<notin> set xs \<Longrightarrow> indexOf c (xs @ c # ys) = int (length xs)"
  by (induction xs) (auto simp: Let_def)

lemma lastIndexOf_last:
  assumes "c \<notin> set ys"
  shows "lastIndexOf c (xs @ c # ys) = int (length xs)"
proof -
  have "indexOf c (rev ys @ c # rev xs) = int (length ys)"
    using assms indexOf_first [of c "rev ys" "rev xs"] by simp
  then show ?thesis by (simp add: lastIndexOf_def)
qed

lemma substringFrom_append: "substringFrom (xs @ ys) (int (length xs)) = ys"
  by (simp add: substringFrom_def clampIndex_def)

lemma substring_prefix: "substring (xs @ ys) 0 (int (length xs)) = xs"
  by (simp add: substring_def clampIndex_def Let_def)

lemma substring_after_head:
  "substring (x # xs @ ys) 1 (int (length (x # xs))) = xs"
  by (simp add: substring_def clampIndex_def Let_def)

section \<open>Segment references: round trip\<close>

lemma build_split:
  "buildSegmentRef p d g = (CHR ''@'' # p @ CHR ''/'' # d) @ CHR ''#'' # g"
  by (simp add: buildSegmentRef_def)

text \<open>
  C1 (amended). Parsing a built reference gives the components back whenever the
  segment id is non-empty and has no \<open>#\<close>, and the project has no \<open>/\<close>.
\<close>

theorem parse_build_roundtrip:
  assumes "g \<noteq> []" and "CHR ''#'' \<notin> set g" and "CHR ''/'' \<notin> set p"
  shows "parseSegmentRef (buildSegmentRef p d g) =
           Some \<lparr>project = Some p, documentId = Some d, segmentId = g,
                 original = buildSegmentRef p d g\<rparr>"
proof -
  let ?res = "CHR ''@'' # p @ CHR ''/'' # d"
  let ?ref = "buildSegmentRef p d g"
  have ref: "?ref = ?res @ CHR ''#'' # g" by (rule build_split)
  have hash: "lastIndexOf CHR ''#'' ?ref = int (length ?res)"
    unfolding ref using assms(2) by (rule lastIndexOf_last)
  have notlast: "int (length ?res) \<noteq> int (length ?ref) - 1"
    using assms(1) unfolding ref by simp
  have "substringFrom ((?res @ [CHR ''#'']) @ g) (int (length (?res @ [CHR ''#'']))) = g"
    by (rule substringFrom_append)
  then have seg: "substringFrom ?ref (int (length ?res) + 1) = g"
    unfolding ref by simp
  have res: "substring ?ref 0 (int (length ?res)) = ?res"
    unfolding ref by (rule substring_prefix)
  have slash: "indexOf CHR ''/'' ?res = int (length (CHR ''@'' # p))"
    using indexOf_first [of "CHR ''/''" "CHR ''@'' # p" d] assms(3) by simp
  have proj: "substring ?res 1 (int (length (CHR ''@'' # p))) = p"
    by (rule substring_after_head)
  have "substringFrom ((CHR ''@'' # p @ [CHR ''/'']) @ d)
          (int (length (CHR ''@'' # p @ [CHR ''/'']))) = d"
    by (rule substringFrom_append)
  then have doc: "substringFrom ?res (int (length (CHR ''@'' # p)) + 1) = d"
    by simp
  have nohash: "\<not> startsWith ?ref CHR ''#''"
    by (simp add: startsWith_def buildSegmentRef_def)
  have at: "startsWith ?res CHR ''@''"
    by (simp add: startsWith_def)
  show ?thesis
    unfolding parseSegmentRef_def Let_def hash
    using nohash notlast
    by (simp only: if_False seg res at if_True slash proj doc simp_thms) simp
qed

theorem parse_build_roundtrip_witness:
  "parseSegmentRef (buildSegmentRef ''docs'' ''api/guide'' ''auth'') =
     Some \<lparr>project = Some ''docs'', documentId = Some ''api/guide'',
           segmentId = ''auth'',
           original = buildSegmentRef ''docs'' ''api/guide'' ''auth''\<rparr>"
  using parse_build_roundtrip [of "''auth''" "''docs''" "''api/guide''"] by simp

text \<open>
  C1 as stated fails: a project with a \<open>/\<close> is cut at its first \<open>/\<close> and the rest
  goes to the document id; a segment id with a \<open>#\<close> is cut at its last \<open>#\<close> and
  what stands before goes to the document id.
\<close>

theorem parse_build_roundtrip_counterexample:
  "parseSegmentRef (buildSegmentRef ''a/b'' ''d'' ''s'') =
     Some \<lparr>project = Some ''a'', documentId = Some ''b/d'', segmentId = ''s'',
           original = ''@a/b/d#s''\<rparr>
   \<and> parseSegmentRef (buildSegmentRef ''a/b'' ''d'' ''s'') \<noteq>
     Some \<lparr>project = Some ''a/b'', documentId = Some ''d'', segmentId = ''s'',
           original = buildSegmentRef ''a/b'' ''d'' ''s''\<rparr>
   \<and> parseSegmentRef (buildSegmentRef ''p'' ''d'' ''x#y'') =
     Some \<lparr>project = Some ''p'', documentId = Some ''d#x'', segmentId = ''y'',
           original = ''@p/d#x#y''\<rparr>
   \<and> parseSegmentRef (buildSegmentRef ''p'' ''d'' ''x#y'') \<noteq>
     Some \<lparr>project = Some ''p'', documentId = Some ''d'', segmentId = ''x#y'',
           original = buildSegmentRef ''p'' ''d'' ''x#y''\<rparr>"
  by (simp add: parseSegmentRef_def buildSegmentRef_def startsWith_def
      lastIndexOf_def substring_def substringFrom_def clampIndex_def Let_def)

section \<open>Concept validation: source and confidence\<close>

lemma conceptLoop_unfold:
  "conceptLoop cs (errs, ids) = (errs @ conceptFindingsFrom ids cs, ids \<union> set (map c_id cs))"
  by (induction cs arbitrary: errs ids) auto

lemma count_discovered_one:
  "count_list (conceptFindings ids c) (''Discovered concept '' @ i @ '' must have confidence score'')
     = (if c_id c = i \<and> c_source c = Discovered \<and> c_confidence c = None then 1 else 0)"
  by (auto simp: conceptFindings_def split: option.splits)

lemma count_manual_one:
  "count_list (conceptFindings ids c) (''Manual concept '' @ i @ '' should not have confidence score'')
     = (if c_id c = i \<and> c_source c = Manual \<and> c_confidence c \<noteq> None then 1 else 0)"
  by (auto simp: conceptFindings_def split: option.splits)

lemma count_invalid_one:
  "count_list (conceptFindings ids c) (''Invalid confidence for '' @ i @ '': must be 0.0-1.0'')
     = (if c_id c = i \<and> (\<exists>x. c_confidence c = Some x \<and> (x < 0 \<or> x > 1)) then 1 else 0)"
  by (auto simp: conceptFindings_def split: option.splits)

lemma count_rel_zero:
  "count_list (relationshipFindings ids r) (''Discovered concept '' @ i @ '' must have confidence score'') = 0"
  "count_list (relationshipFindings ids r) (''Manual concept '' @ i @ '' should not have confidence score'') = 0"
  "count_list (relationshipFindings ids r) (''Invalid confidence for '' @ i @ '': must be 0.0-1.0'') = 0"
  by (auto simp: relationshipFindings_def)

lemma count_list_concat_zero:
  "(\<And>x. x \<in> set xs \<Longrightarrow> count_list (f x) m = 0) \<Longrightarrow> count_list (concat (map f xs)) m = 0"
  by (induction xs) auto

lemma count_conceptFindingsFrom:
  assumes "\<And>ids c. count_list (conceptFindings ids c) m = (if P c then 1 else 0)"
  shows "count_list (conceptFindingsFrom ids cs) m = length (filter P cs)"
  using assms by (induction cs arbitrary: ids) auto

lemma count_validateConcepts:
  assumes "\<And>ids c. count_list (conceptFindings ids c) m = (if P c then 1 else 0)"
      and "\<And>ids r. count_list (relationshipFindings ids r) m = 0"
  shows "count_list (validateConcepts g) m = length (filter P (concepts g))"
  using assms
  by (simp add: validateConcepts_def conceptLoop_unfold count_conceptFindingsFrom count_list_concat_zero)

text \<open>
  C7. For every graph and every id \<open>i\<close>, validation reports the missing-confidence
  finding for \<open>i\<close> once for each discovered concept with id \<open>i\<close> that has no
  confidence, and the forbidden-confidence finding once for each manual concept with
  id \<open>i\<close> that has one; the range finding appears only for a confidence outside
  \<open>[0, 1]\<close>. So one such concept gets exactly one finding, naming its id.
\<close>

theorem concept_confidence_findings:
  "count_list (validateConcepts g) (''Discovered concept '' @ i @ '' must have confidence score'')
     = length [c \<leftarrow> concepts g. c_id c = i \<and> c_source c = Discovered \<and> c_confidence c = None]
   \<and> count_list (validateConcepts g) (''Manual concept '' @ i @ '' should not have confidence score'')
     = length [c \<leftarrow> concepts g. c_id c = i \<and> c_source c = Manual \<and> c_confidence c \<noteq> None]
   \<and> count_list (validateConcepts g) (''Invalid confidence for '' @ i @ '': must be 0.0-1.0'')
     = length [c \<leftarrow> concepts g. c_id c = i \<and> (\<exists>x. c_confidence c = Some x \<and> (x < 0 \<or> x > 1))]"
  by (intro conjI count_validateConcepts count_discovered_one count_manual_one count_invalid_one count_rel_zero)

theorem concept_confidence_findings_witness:
  "count_list (validateConcepts pairingExample)
     (''Discovered concept '' @ ''c1'' @ '' must have confidence score'') = 1
   \<and> count_list (validateConcepts pairingExample)
     (''Manual concept '' @ ''c2'' @ '' should not have confidence score'') = 1
   \<and> count_list (validateConcepts pairingExample)
     (''Invalid confidence for '' @ ''c2'' @ '': must be 0.0-1.0'') = 0"
proof -
  have d: "length [c \<leftarrow> concepts pairingExample.
             c_id c = ''c1'' \<and> c_source c = Discovered \<and> c_confidence c = None] = 1"
    by (simp add: pairingExample_def plainConcept_def)
  have m: "length [c \<leftarrow> concepts pairingExample.
             c_id c = ''c2'' \<and> c_source c = Manual \<and> c_confidence c \<noteq> None] = 1"
    by (simp add: pairingExample_def plainConcept_def del: not_None_eq)
  have r: "length [c \<leftarrow> concepts pairingExample.
             c_id c = ''c2'' \<and> (\<exists>x. c_confidence c = Some x \<and> (x < 0 \<or> x > 1))] = 0"
    by (simp add: pairingExample_def plainConcept_def)
  show ?thesis
    using concept_confidence_findings [of pairingExample "''c1''"]
          concept_confidence_findings [of pairingExample "''c2''"]
    unfolding d m r by simp
qed

lemma pairingExample_findings:
  "validateConcepts pairingExample =
     [''Discovered concept c1 must have confidence score'',
      ''Manual concept c2 should not have confidence score'']"
  by (simp add: validateConcepts_def pairingExample_def plainConcept_def conceptFindings_def)

section \<open>Concept hierarchy on cyclic parent edges\<close>

lemma never_returns_step:
  "buildConceptHierarchy n mutualParents ''a'' = None \<and>
   buildConceptHierarchy n mutualParents ''b'' = None"
proof (induction n)
  case 0
  show ?case by simp
next
  case (Suc n)
  then show ?case
    by (simp add: mutualParents_def plainConcept_def parentEdge_def stripConceptPrefix_def)
qed

text \<open>
  C10 (the code departs from it). On two concepts that are each other's parent, a
  graph on which \<^verbatim>\<open>validateConcepts\<close> has no finding, no depth of nested calls is
  enough for \<^verbatim>\<open>buildConceptHierarchy\<close> to return: the source recurses until the
  call stack overflows.
\<close>

theorem mutual_parents_never_returns:
  "validateConcepts mutualParents = [] \<and>
   (\<forall>depth. buildConceptHierarchy depth mutualParents ''a'' = None)"
proof
  show "validateConcepts mutualParents = []"
    by (simp add: validateConcepts_def mutualParents_def plainConcept_def parentEdge_def
        conceptFindings_def relationshipFindings_def stripConceptPrefix_def)
  show "\<forall>depth. buildConceptHierarchy depth mutualParents ''a'' = None"
    using never_returns_step by blast
qed

theorem mutual_parents_never_returns_witness:
  "buildConceptHierarchy 1000 mutualParents ''a'' = None"
  using mutual_parents_never_returns by blast

section \<open>Linkage: bidirectional consistency\<close>

lemma hasMember_iff:
  "hasMember entries key \<longleftrightarrow> key \<in> keysOf entries \<or> key \<in> set objectPrototypeMembers"
proof (cases "map_of entries key")
  case None
  then have "key \<notin> keysOf entries" by (simp add: keysOf_def map_of_eq_None_iff)
  with None show ?thesis by (simp add: hasMember_def)
next
  case (Some v)
  then have "(key, v) \<in> set entries" by (rule map_of_SomeD)
  then have "key \<in> keysOf entries" by (force simp: keysOf_def)
  with Some show ?thesis by (simp add: hasMember_def)
qed

text \<open>A symbol \<^verbatim>\<open>path:function\<close> has a colon, which no inherited member name has.\<close>

lemma symbol_not_inherited: "path @ '':'' @ func \<notin> set objectPrototypeMembers"
proof
  assume "path @ '':'' @ func \<in> set objectPrototypeMembers"
  moreover have "\<forall>name \<in> set objectPrototypeMembers. CHR '':'' \<notin> set name"
    by (simp add: objectPrototypeMembers_def)
  ultimately have "CHR '':'' \<notin> set (path @ '':'' @ func)" by blast
  then show False by simp
qed

lemma assetsLoop_eq:
  "assetsLoop l as errs =
     errs @ map reverseFinding (filter (\<lambda>p. \<not> hasMember (asset_to_code l) p) (map a_path as))"
  by (induction as arbitrary: errs) (auto simp: reverseFinding_def)

lemma codeToAssetsLoop_eq:
  "codeToAssetsLoop l es errs =
     errs @ map reverseFinding (filter (\<lambda>p. \<not> hasMember (asset_to_code l) p)
              (concat (map (\<lambda>(symbol, mapping). map a_path (cm_assets mapping)) es)))"
  by (induction es arbitrary: errs) (auto simp: assetsLoop_eq)

lemma functionsLoop_eq:
  "functionsLoop l r fs errs =
     errs @ map forwardFinding (filter (\<lambda>s. s \<notin> keysOf (code_to_assets l))
              (map (\<lambda>func. cr_path r @ '':'' @ func) fs))"
  by (induction fs arbitrary: errs)
     (auto simp: forwardFinding_def hasMember_iff symbol_not_inherited [simplified] Let_def)

lemma codeRefsLoop_eq:
  "codeRefsLoop l rs errs =
     errs @ map forwardFinding (filter (\<lambda>s. s \<notin> keysOf (code_to_assets l))
              (symbolsOf \<lparr>am_code_refs = rs\<rparr>))"
  by (induction rs arbitrary: errs) (auto simp: functionsLoop_eq symbolsOf_def)

lemma assetToCodeLoop_eq:
  "assetToCodeLoop l es errs =
     errs @ map forwardFinding (filter (\<lambda>s. s \<notin> keysOf (code_to_assets l))
              (concat (map (\<lambda>(docPath, mapping). symbolsOf mapping) es)))"
  by (induction es arbitrary: errs) (auto simp: codeRefsLoop_eq symbolsOf_def)

text \<open>
  The findings of any linkage, in order: one reverse finding for every asset reference
  whose path \<^verbatim>\<open>asset_to_code\<close> has no member for, own or inherited, then one forward
  finding for every \<^verbatim>\<open>path:function\<close> that is no key of \<^verbatim>\<open>code_to_assets\<close>.
\<close>

lemma validate_eq:
  "validateBidirectionalConsistency l =
     map reverseFinding (filter (\<lambda>p. \<not> hasMember (asset_to_code l) p) (referencedAssets l)) @
     map forwardFinding (filter (\<lambda>s. s \<notin> keysOf (code_to_assets l)) (referencedSymbols l))"
  by (simp add: validateBidirectionalConsistency_def codeToAssetsLoop_eq assetToCodeLoop_eq
      referencedAssets_def referencedSymbols_def)

lemma filter_off_inherited:
  "set xs \<inter> set objectPrototypeMembers = {} \<Longrightarrow>
   filter (\<lambda>p. \<not> hasMember entries p) xs = filter (\<lambda>p. p \<notin> keysOf entries) xs"
  by (induction xs) (auto simp: hasMember_iff)

lemma addReverseEntry_fields:
  "code_to_assets (addReverseEntry l p m) = code_to_assets l"
  "keysOf (asset_to_code (addReverseEntry l p m)) = insert p (keysOf (asset_to_code l))"
  "referencedAssets (addReverseEntry l p m) = referencedAssets l"
  "referencedSymbols (addReverseEntry l p m) = referencedSymbols l @ symbolsOf m"
  by (auto simp: addReverseEntry_def keysOf_def referencedAssets_def referencedSymbols_def)

lemma filter_all_inside: "set xs \<subseteq> A \<Longrightarrow> filter (\<lambda>x. x \<notin> A) xs = []"
  by (induction xs) auto

text \<open>
  Where no asset reference is named like an inherited member, the findings are as
  the specification says: one reverse finding for every asset reference whose path is
  no key of \<^verbatim>\<open>asset_to_code\<close>, then one forward finding for every \<^verbatim>\<open>path:function\<close>
  that is no key of \<^verbatim>\<open>code_to_assets\<close>, and nothing stops at the first. When exactly
  one asset reference lacks its reverse entry and no symbol lacks its forward entry,
  the list is the one finding naming that path, and it becomes empty once a reverse
  entry is added whose symbols are keys of \<^verbatim>\<open>code_to_assets\<close>.
\<close>

lemma findings_off_inherited_names:
  assumes off: "set (referencedAssets l) \<inter> set objectPrototypeMembers = {}"
  shows "validateBidirectionalConsistency l =
     map reverseFinding (filter (\<lambda>p. p \<notin> keysOf (asset_to_code l)) (referencedAssets l)) @
     map forwardFinding (filter (\<lambda>s. s \<notin> keysOf (code_to_assets l)) (referencedSymbols l))
   \<and> (filter (\<lambda>p. p \<notin> keysOf (asset_to_code l)) (referencedAssets l) = [path]
        \<and> filter (\<lambda>s. s \<notin> keysOf (code_to_assets l)) (referencedSymbols l) = []
      \<longrightarrow> validateBidirectionalConsistency l = [reverseFinding path]
        \<and> (set (symbolsOf m) \<subseteq> keysOf (code_to_assets l)
             \<longrightarrow> validateBidirectionalConsistency (addReverseEntry l path m) = []))"
proof (intro conjI impI)
  have general: "\<And>l'. referencedAssets l' = referencedAssets l \<Longrightarrow>
     validateBidirectionalConsistency l' =
       map reverseFinding (filter (\<lambda>p. p \<notin> keysOf (asset_to_code l')) (referencedAssets l')) @
       map forwardFinding (filter (\<lambda>s. s \<notin> keysOf (code_to_assets l')) (referencedSymbols l'))"
    using off by (simp add: validate_eq filter_off_inherited)
  show "validateBidirectionalConsistency l =
     map reverseFinding (filter (\<lambda>p. p \<notin> keysOf (asset_to_code l)) (referencedAssets l)) @
     map forwardFinding (filter (\<lambda>s. s \<notin> keysOf (code_to_assets l)) (referencedSymbols l))"
    by (rule general) simp
  assume one: "filter (\<lambda>p. p \<notin> keysOf (asset_to_code l)) (referencedAssets l) = [path]
        \<and> filter (\<lambda>s. s \<notin> keysOf (code_to_assets l)) (referencedSymbols l) = []"
  then show "validateBidirectionalConsistency l = [reverseFinding path]"
    by (simp add: general)
  assume known: "set (symbolsOf m) \<subseteq> keysOf (code_to_assets l)"
  have "filter (\<lambda>p. p \<notin> insert path (keysOf (asset_to_code l))) (referencedAssets l)
          = filter (\<lambda>p. p \<noteq> path) (filter (\<lambda>p. p \<notin> keysOf (asset_to_code l)) (referencedAssets l))"
    by (simp add: conj_commute)
  also have "\<dots> = []" using one by simp
  finally have rev: "filter (\<lambda>p. p \<notin> insert path (keysOf (asset_to_code l))) (referencedAssets l) = []" .
  have fwd: "filter (\<lambda>s. s \<notin> keysOf (code_to_assets l)) (symbolsOf m) = []"
    using known by (rule filter_all_inside)
  show "validateBidirectionalConsistency (addReverseEntry l path m) = []"
    using one rev fwd by (simp add: general addReverseEntry_fields)
qed

text \<open>
  The repository's test: one asset reference, \<^verbatim>\<open>missing.md\<close>, without a reverse entry
  gives the one finding that names it, and none once the reverse entry is added.
\<close>

lemma findings_of_inconsistentLinkage:
  "validateBidirectionalConsistency inconsistentLinkage =
     [''Missing reverse mapping: missing.md not in asset_to_code'']
   \<and> validateBidirectionalConsistency
         (addReverseEntry inconsistentLinkage ''missing.md'' reverseOfTest) = []"
proof -
  have off: "set (referencedAssets inconsistentLinkage) \<inter> set objectPrototypeMembers = {}"
    by (simp add: inconsistentLinkage_def referencedAssets_def objectPrototypeMembers_def)
  have a: "filter (\<lambda>p. p \<notin> keysOf (asset_to_code inconsistentLinkage))
             (referencedAssets inconsistentLinkage) = [''missing.md'']"
    by (simp add: inconsistentLinkage_def referencedAssets_def keysOf_def)
  have b: "filter (\<lambda>s. s \<notin> keysOf (code_to_assets inconsistentLinkage))
             (referencedSymbols inconsistentLinkage) = []"
    by (simp add: inconsistentLinkage_def referencedSymbols_def keysOf_def)
  have c: "set (symbolsOf reverseOfTest) \<subseteq> keysOf (code_to_assets inconsistentLinkage)"
    by (simp add: inconsistentLinkage_def reverseOfTest_def symbolsOf_def keysOf_def)
  show ?thesis
    using findings_off_inherited_names
            [of inconsistentLinkage "''missing.md''" reverseOfTest, OF off] a b c
    by (simp add: reverseFinding_def)
qed

text \<open>
  C8 does not hold of the code. In a linkage whose \<^verbatim>\<open>code_to_assets\<close> refers to one
  asset, of path \<^verbatim>\<open>constructor\<close>, and whose \<^verbatim>\<open>asset_to_code\<close> is empty, that path is
  referenced and is no key of \<^verbatim>\<open>asset_to_code\<close>, so the claim asks for one finding
  naming it. The check reads \<^verbatim>\<open>linkage.asset_to_code['constructor']\<close>, finds the
  member every object inherits, and reports nothing.
\<close>

theorem inherited_name_hides_missing_reverse_entry:
  "referencedAssets constructorLinkage = [''constructor'']
   \<and> ''constructor'' \<notin> keysOf (asset_to_code constructorLinkage)
   \<and> hasMember (asset_to_code constructorLinkage) ''constructor''
   \<and> validateBidirectionalConsistency constructorLinkage = []"
  by (simp add: constructorLinkage_def referencedAssets_def keysOf_def hasMember_def
      objectPrototypeMembers_def validateBidirectionalConsistency_def)

section \<open>Navigation: filtering by version\<close>

lemma filterItems_Nil: "filterItems tv v [] = []"
  by (simp add: filterItems.simps)

lemma filterItems_Cons:
  "filterItems tv v (item # rest) =
     (if keepItem tv v item
      then NavigationItem (n_id item) (n_title item) (n_link item)
             (case n_children item of None \<Rightarrow> None
              | Some children \<Rightarrow> Some (filterItems tv v children))
             (n_noLink item) (n_icon item) (n_badge item) (n_order item) (n_metadata item)
           # filterItems tv v rest
      else filterItems tv v rest)"
  by (simp add: filterItems.simps [of tv v "item # rest"] filterItems.simps [of tv v rest])

lemma keepItem_ownFields: "keepItem tv v (ownFields item) = keepItem tv v item"
  by (simp add: keepItem_def itemVersions_def ownFields_def)

lemma ownFields_rebuilt:
  "ownFields (NavigationItem (n_id item) (n_title item) (n_link item) cs
       (n_noLink item) (n_icon item) (n_badge item) (n_order item) (n_metadata item))
     = ownFields item"
  by (simp add: ownFields_def)

lemma filter_under_dropped:
  "\<not> P x \<Longrightarrow> filter (list_all P) (map ((#) x) ps) = []"
  by (induction ps) auto

lemma filter_under_kept:
  "P x \<Longrightarrow> filter (list_all P) (map ((#) x) ps) = map ((#) x) (filter (list_all P) ps)"
  by (induction ps) auto

lemma itemPaths_filterItems:
  "itemPaths (filterItems tv v items) =
     filter (list_all (keepItem tv v)) (itemPaths items)"
proof (induction items rule: itemPaths.induct)
  case 1
  show ?case by (simp add: filterItems_Nil)
next
  case (2 item rest)
  show ?case
  proof (cases "keepItem tv v item")
    case False
    then show ?thesis
      using 2(2) by (simp add: filterItems_Cons keepItem_ownFields filter_under_dropped)
  next
    case True
    then show ?thesis
      using 2 by (cases "n_children item")
        (simp_all add: filterItems_Cons keepItem_ownFields filter_under_kept ownFields_rebuilt)
  qed
qed

text \<open>
  C9 (amended). A tree whose allow-list lacks the target version loses all its items.
  Otherwise the result holds, in the same order, exactly the items that pass the
  version test and all of whose ancestors pass it: the children of a kept item are
  filtered by the same rule, the children of a dropped item go with it.
\<close>

theorem filterByVersion_paths:
  "(t_versions tree = Some vs \<and> version \<notin> set vs \<longrightarrow>
      t_items (filterByVersion tree version) = [])
   \<and> (t_versions tree = None \<or> (t_versions tree = Some vs \<and> version \<in> set vs) \<longrightarrow>
      itemPaths (t_items (filterByVersion tree version)) =
        filter (list_all (keepItem (t_versions tree) version)) (itemPaths (t_items tree)))"
  by (auto simp: filterByVersion_def itemPaths_filterItems)

theorem filterByVersion_paths_witness:
  "t_items (filterByVersion (exampleTree\<lparr>t_versions := Some [''v1'']\<rparr>) ''v2'') = []
   \<and> itemPaths (t_items (filterByVersion exampleTree ''v2'')) =
       [[leafItem ''Q'' None], [leafItem ''Q'' None, leafItem ''R'' (Some [''v2''])]]"
proof -
  have a: "t_versions (exampleTree\<lparr>t_versions := Some [''v1'']\<rparr>) = Some [''v1'']
           \<and> ''v2'' \<notin> set [''v1'']"
    by simp
  have b: "t_versions exampleTree = None"
    by (simp add: exampleTree_def)
  have c: "filter (list_all (keepItem None ''v2'')) (itemPaths (t_items exampleTree)) =
       [[leafItem ''Q'' None], [leafItem ''Q'' None, leafItem ''R'' (Some [''v2''])]]"
    by (simp add: exampleTree_def parentItem_def leafItem_def ownFields_def keepItem_def
        itemVersions_def)
  show ?thesis
    using filterByVersion_paths [of "exampleTree\<lparr>t_versions := Some [''v1'']\<rparr>" "[''v1'']" "''v2''"]
          filterByVersion_paths [of exampleTree "[]" "''v2''"]
          a b c
    by simp
qed

text \<open>
  C9 as stated fails: \<open>C\<close> declares \<open>v2\<close>, yet filtering for \<open>v2\<close> drops it with
  its parent \<open>P\<close>, which declares \<open>v1\<close> only.
\<close>

theorem filterByVersion_counterexample:
  "keepItem (t_versions exampleTree) ''v2'' (leafItem ''C'' (Some [''v2'']))
   \<and> t_items (filterByVersion exampleTree ''v2'') =
       [parentItem ''Q'' None [leafItem ''R'' (Some [''v2''])]]"
  by (simp add: filterByVersion_def exampleTree_def parentItem_def leafItem_def
      filterItems_Cons filterItems_Nil keepItem_def itemVersions_def)

section \<open>Double-precision numbers: the binade and evaluation\<close>

lemma pow2_succ: "pow2 (e + 1) = 2 * pow2 e"
proof (cases "0 \<le> e")
  case True
  then show ?thesis by (simp add: pow2_def nat_add_distrib)
next
  case False
  then have suc: "nat (- e) = Suc (nat (- (e + 1)))" by simp
  show ?thesis
  proof (cases "e + 1 = 0")
    case True
    then have "e = - 1" by simp
    then show ?thesis by (simp add: pow2_def)
  next
    case nonzero: False
    with False have "\<not> 0 \<le> e + 1" by simp
    with False show ?thesis by (simp only: pow2_def suc if_False) simp
  qed
qed

lemma binadeUp_bounds:
  "1 \<le> q \<Longrightarrow> pow2 (binadeUp q) \<le> q \<and> q < pow2 (binadeUp q + 1) \<and> 0 \<le> binadeUp q"
proof (induction q rule: binadeUp.induct)
  case (1 q)
  show ?case
  proof (cases "q < 2")
    case True
    with 1 show ?thesis by (simp add: binadeUp.simps [of q] pow2_def)
  next
    case False
    with 1 have ih: "pow2 (binadeUp (q / 2)) \<le> q / 2" "q / 2 < pow2 (binadeUp (q / 2) + 1)"
      "0 \<le> binadeUp (q / 2)"
      by auto
    have unfold: "binadeUp q = binadeUp (q / 2) + 1"
      using False by (simp add: binadeUp.simps [of q])
    have "pow2 (binadeUp q) = 2 * pow2 (binadeUp (q / 2))"
      using pow2_succ [of "binadeUp (q / 2)"] unfold by simp
    moreover have "pow2 (binadeUp q + 1) = 2 * pow2 (binadeUp (q / 2) + 1)"
      using pow2_succ [of "binadeUp (q / 2) + 1"] unfold by simp
    ultimately show ?thesis using ih unfold by simp
  qed
qed

lemma binadeDown_bounds:
  "0 < q \<Longrightarrow> q < 1 \<Longrightarrow>
   pow2 (binadeDown q) \<le> q \<and> q < pow2 (binadeDown q + 1) \<and> binadeDown q < 0"
proof (induction q rule: binadeDown.induct)
  case (1 q)
  have unfold: "binadeDown q = binadeDown (2 * q) - 1"
    using 1(2,3) by (simp add: binadeDown.simps [of q])
  show ?case
  proof (cases "1 \<le> 2 * q")
    case True
    then have "binadeDown (2 * q) = 0" by (simp add: binadeDown.simps [of "2 * q"])
    with 1(2,3) True unfold show ?thesis by (simp add: pow2_def)
  next
    case False
    with 1 have ih: "pow2 (binadeDown (2 * q)) \<le> 2 * q" "2 * q < pow2 (binadeDown (2 * q) + 1)"
      "binadeDown (2 * q) < 0"
      by auto
    have "pow2 (binadeDown (2 * q)) = 2 * pow2 (binadeDown q)"
      using pow2_succ [of "binadeDown q"] unfold by simp
    moreover have "pow2 (binadeDown (2 * q) + 1) = 2 * pow2 (binadeDown q + 1)"
      using pow2_succ [of "binadeDown q + 1"] unfold by simp
    ultimately show ?thesis using ih unfold by simp
  qed
qed

text \<open>The binade is the exponent of the power of two at or below the number.\<close>

lemma binade_bounds: "0 < q \<Longrightarrow> pow2 (binade q) \<le> q \<and> q < pow2 (binade q + 1)"
  using binadeUp_bounds [of q] binadeDown_bounds [of q] by (simp add: binade_def)

lemma binadeUp_stop: "q < 2 \<Longrightarrow> binadeUp q = 0"
  by (simp add: binadeUp.simps [of q])

lemma binadeUp_step: "\<not> q < 2 \<Longrightarrow> binadeUp q = binadeUp (q / 2) + 1"
  by (simp add: binadeUp.simps [of q])

lemma binadeDown_stop: "q \<le> 0 \<or> 1 \<le> q \<Longrightarrow> binadeDown q = 0"
  by (simp add: binadeDown.simps [of q])

lemma binadeDown_step:
  "\<not> (q \<le> 0 \<or> 1 \<le> q) \<Longrightarrow> binadeDown q = binadeDown (2 * q) - 1"
  by (simp add: binadeDown.simps [of q])

lemma floor_numeral_quotient:
  "\<lfloor>numeral a / numeral b :: rat\<rfloor> = numeral a div numeral b"
  using floor_divide_of_int_eq [of "numeral a" "numeral b", where ?'a = rat] by simp

lemmas double_eval = floor_numeral_quotient roundToDouble_def roundHalfEven_def binade_def
  pow2_def Let_def binadeUp_stop binadeUp_step binadeDown_stop binadeDown_step

lemma tenth_value: "tenth = Finite (7205759403792794 / 72057594037927936)"
  by (simp add: tenth_def double_eval)

lemma sixFifths_value: "sixFifths = Finite (5404319552844595 / 4503599627370496)"
  by (simp add: sixFifths_def double_eval)

section \<open>Page aggregation: the average boost\<close>

lemma foldl_segmentStep_tokens:
  "totalTokens (foldl segmentStep acc segs) =
     foldl fadd (totalTokens acc) (filter truthy (map retrievalTokens segs))"
  by (induction segs arbitrary: acc)
    (simp_all add: segmentStep_def Let_def addIfTruthy_def retrievalTokens_def orElse_def
      split: option.splits)

lemma foldl_segmentStep_boost:
  "weightedBoostSum (foldl segmentStep acc segs) =
     foldl fadd (weightedBoostSum acc)
       (map (\<lambda>s. fmul (orElse (s_boost s) (Finite 1)) (retrievalTokens s)) segs)"
  by (induction segs arbitrary: acc)
    (simp_all add: segmentStep_def Let_def retrievalTokens_def)

lemma orElse_boost: "keepsBoost s \<Longrightarrow> orElse (s_boost s) (Finite 1) = declaredBoost s"
  by (simp add: keepsBoost_def orElse_def declaredBoost_def split: option.splits)

lemma totalTokens_tokenSum:
  "totalTokens (foldl segmentStep
      \<lparr>totalReturnMax = Finite 0, totalReturnMin = Finite 0, totalGenerateMax = Finite 0,
       totalGenerateMin = Finite 0, weightedBoostSum = Finite 0, totalTokens = Finite 0\<rparr> segs)
   = tokenSum segs"
  by (simp add: foldl_segmentStep_tokens tokenSum_def)

lemma weightedBoostSum_weightedSum:
  assumes "\<forall>s \<in> set segs. keepsBoost s"
  shows "weightedBoostSum (foldl segmentStep
      \<lparr>totalReturnMax = Finite 0, totalReturnMin = Finite 0, totalGenerateMax = Finite 0,
       totalGenerateMin = Finite 0, weightedBoostSum = Finite 0, totalTokens = Finite 0\<rparr> segs)
   = weightedSum segs"
proof -
  have products: "map (\<lambda>s. fmul (orElse (s_boost s) (Finite 1)) (retrievalTokens s)) segs
      = map (\<lambda>s. fmul (declaredBoost s) (retrievalTokens s)) segs"
    using assms by (simp add: orElse_boost)
  show ?thesis
    unfolding foldl_segmentStep_boost weightedSum_def products by simp
qed

text \<open>
  Boosts 0.1 and 0.2 on budgets of 1 average to 0.15000000000000002, one unit in the
  last place above the double nearest to 0.15.
\<close>

lemma average_of_tenth_and_fifth:
  "average_boost (aggregatePageMetadata
     [retrievalSegment ''a'' (Some tenth) (Finite 1),
      retrievalSegment ''b'' (Some (roundToDouble (2 / 10))) (Finite 1)])
     = Finite (10808639105689192 / 72057594037927936)
   \<and> roundToDouble (15 / 100) = Finite (10808639105689190 / 72057594037927936)"
  by (simp add: aggregatePageMetadata_def segmentStep_def retrievalSegment_def orElse_def
      addIfTruthy_def maxTokensOf_def minTokensOf_def tenth_value double_eval)

text \<open>
  C5 (amended). The average boost is computed in double-precision arithmetic. The
  retrieval budgets that are present and neither \<open>0\<close> nor NaN are added in segment
  order, each sum rounded to the nearest double. When that total is not greater than
  zero, the average boost is \<open>1\<close>, whatever the boosts are. When it is greater than
  zero and no segment declares a boost that is \<open>0\<close> or NaN, the average boost is the
  rounded quotient of the weighted sum by the total, where the weighted sum adds the
  rounded products of boost and budget in segment order, with boost \<open>1\<close> for a
  segment that declares none and budget \<open>0\<close> for a segment whose budget is absent,
  \<open>0\<close> or NaN.
\<close>

theorem average_boost_weighted:
  "(\<not> greaterThanZero (tokenSum segs) \<longrightarrow>
      average_boost (aggregatePageMetadata segs) = Finite 1)
   \<and> (greaterThanZero (tokenSum segs) \<and> (\<forall>s \<in> set segs. keepsBoost s) \<longrightarrow>
      average_boost (aggregatePageMetadata segs) = fdiv (weightedSum segs) (tokenSum segs))"
  by (simp add: aggregatePageMetadata_def Let_def totalTokens_tokenSum
      weightedBoostSum_weightedSum)

text \<open>
  Budgets 800 and 200 with boosts 1.2 and 1.0 give the double nearest to 1.16, and
  a page whose only segment has no retrieval budget gives 1.
\<close>

theorem average_boost_weighted_witness:
  "average_boost (aggregatePageMetadata
     [retrievalSegment ''a'' (Some sixFifths) (Finite 800),
      retrievalSegment ''b'' (Some (Finite 1)) (Finite 200)])
   = roundToDouble (116 / 100)
   \<and> average_boost (aggregatePageMetadata
     [\<lparr>s_id = ''c'', s_boost = Some sixFifths, s_return = None, s_generate = None,
       s_segment_checksum = None\<rparr>])
   = Finite 1"
proof -
  let ?segs = "[retrievalSegment ''a'' (Some sixFifths) (Finite 800),
                retrievalSegment ''b'' (Some (Finite 1)) (Finite 200)]"
  let ?bare = "[\<lparr>s_id = ''c'', s_boost = Some sixFifths, s_return = None, s_generate = None,
                 s_segment_checksum = None\<rparr>]"
  have total: "tokenSum ?segs = Finite 1000"
    by (simp add: tokenSum_def retrievalTokens_def retrievalSegment_def maxTokensOf_def
        orElse_def double_eval)
  have weighted: "weightedSum ?segs = Finite 1160"
    by (simp add: weightedSum_def retrievalTokens_def retrievalSegment_def maxTokensOf_def
        orElse_def declaredBoost_def sixFifths_value double_eval)
  have keeps: "\<forall>s \<in> set ?segs. keepsBoost s"
    by (simp add: keepsBoost_def retrievalSegment_def sixFifths_value)
  have quotient: "fdiv (Finite 1160) (Finite 1000) = roundToDouble (116 / 100)"
    by simp
  have bare: "\<not> greaterThanZero (tokenSum ?bare)"
    by (simp add: tokenSum_def retrievalTokens_def maxTokensOf_def orElse_def)
  from average_boost_weighted [of ?segs] average_boost_weighted [of ?bare]
    total weighted keeps quotient bare
  show ?thesis by simp
qed

text \<open>
  C5 as stated fails. Two segments that both declare the boost 0.1, with budgets 1
  and 2, get an average boost one unit in the last place above 0.1, where the
  weighted average of two equal boosts is that boost. A declared boost of \<open>0\<close> on a
  budget of 100 is averaged as \<open>1\<close>, where the weighted average of the declared
  boosts is \<open>0\<close>; and a negative total gives \<open>1\<close>, where the quotient of the sums
  is \<open>2\<close>.
\<close>

theorem average_boost_counterexample:
  "average_boost (aggregatePageMetadata
     [retrievalSegment ''a'' (Some tenth) (Finite 1),
      retrievalSegment ''b'' (Some tenth) (Finite 2)])
     = Finite (7205759403792795 / 72057594037927936)
   \<and> tokenWeightedAverage
     [retrievalSegment ''a'' (Some tenth) (Finite 1),
      retrievalSegment ''b'' (Some tenth) (Finite 2)]
     = 7205759403792794 / 72057594037927936
   \<and> average_boost (aggregatePageMetadata
        [retrievalSegment ''s'' (Some (Finite 0)) (Finite 100)]) = Finite 1
   \<and> tokenWeightedAverage [retrievalSegment ''s'' (Some (Finite 0)) (Finite 100)] = 0
   \<and> average_boost (aggregatePageMetadata
        [retrievalSegment ''s'' (Some (Finite 2)) (Finite (- 5))]) = Finite 1
   \<and> tokenWeightedAverage [retrievalSegment ''s'' (Some (Finite 2)) (Finite (- 5))] = 2"
  by (simp add: aggregatePageMetadata_def tokenWeightedAverage_def segmentStep_def
      retrievalSegment_def orElse_def addIfTruthy_def maxTokensOf_def minTokensOf_def
      exactBoost_def exactTokens_def tenth_value double_eval)

section \<open>Nested markers\<close>

lemma pairMarkers_nested:
  assumes "length starts = length ends"
      and "Suc i < length starts"
      and "nestedAt starts ends i"
      and "\<forall>j\<le>i. orderedAt starts ends j"
  shows "\<exists>j\<le>i. nestedAt starts ends j \<and> (\<forall>k<j. \<not> nestedAt starts ends k) \<and>
           pairMarkers off starts ends acc =
             Inl (NestedSegments (m_capture (starts ! Suc j)) (m_capture (starts ! j)))"
  using assms
proof (induction off starts ends acc arbitrary: i rule: pairMarkers.induct)
  case (1 off ends acc)
  then show ?case by simp
next
  case (2 off start starts acc)
  then show ?case by simp
next
  case (3 off start starts e ends acc)
  have ord0: "\<not> m_index e < m_index start + m_length start"
    using "3.prems"(4) by (auto simp: orderedAt_def)
  have ne: "starts \<noteq> []" using "3.prems"(2) by auto
  show ?case
  proof (cases "m_index (hd starts) < m_index e")
    case True
    then have "nestedAt (start # starts) (e # ends) 0"
      using ne by (simp add: nestedAt_def hd_conv_nth)
    moreover have "pairMarkers off (start # starts) (e # ends) acc =
        Inl (NestedSegments (m_capture ((start # starts) ! Suc 0)) (m_capture ((start # starts) ! 0)))"
      using True ne ord0 by (simp add: hd_conv_nth)
    ultimately show ?thesis by blast
  next
    case False
    then have not0: "\<not> nestedAt (start # starts) (e # ends) 0"
      using ne by (simp add: nestedAt_def hd_conv_nth)
    then obtain i' where i: "i = Suc i'"
      using "3.prems"(3) by (cases i) auto
    have "\<exists>j\<le>i'. nestedAt starts ends j \<and> (\<forall>k<j. \<not> nestedAt starts ends k) \<and>
           pairMarkers off starts ends
             (acc @ [\<lparr>mr_id = m_capture start,
                startMarkerBegin = m_index start + off,
                startMarkerEnd = m_index start + m_length start + off,
                endMarkerBegin = m_index e + off,
                endMarkerEnd = m_index e + m_length e + off\<rparr>]) =
             Inl (NestedSegments (m_capture (starts ! Suc j)) (m_capture (starts ! j)))"
    proof (rule "3.IH")
      show "\<not> m_index e < m_index start + m_length start" by (rule ord0)
      show "\<not> (starts \<noteq> [] \<and> m_index (hd starts) < m_index e)" using False by simp
      show "length starts = length ends" using "3.prems"(1) by simp
      show "Suc i' < length starts" using "3.prems"(2) i by simp
      show "nestedAt starts ends i'" using "3.prems"(3) i by (simp add: nestedAt_def)
      show "\<forall>j\<le>i'. orderedAt starts ends j"
      proof (intro allI impI)
        fix j assume "j \<le> i'"
        then have "orderedAt (start # starts) (e # ends) (Suc j)"
          using "3.prems"(4) i by simp
        then show "orderedAt starts ends j" by (simp add: orderedAt_def)
      qed
    qed
    then obtain j where j: "j \<le> i'" "nestedAt starts ends j" "\<forall>k<j. \<not> nestedAt starts ends k"
      "pairMarkers off (start # starts) (e # ends) acc =
         Inl (NestedSegments (m_capture (starts ! Suc j)) (m_capture (starts ! j)))"
      using False ord0 by auto
    have "\<forall>k<Suc j. \<not> nestedAt (start # starts) (e # ends) k"
    proof (intro allI impI)
      fix k assume "k < Suc j"
      then show "\<not> nestedAt (start # starts) (e # ends) k"
        using not0 j(3) by (cases k) (auto simp: nestedAt_def)
    qed
    moreover have "nestedAt (start # starts) (e # ends) (Suc j)"
      using j(2) by (simp add: nestedAt_def)
    ultimately show ?thesis
      using j(1,4) i by (intro exI [of _ "Suc j"]) simp
  qed
qed

lemma nested_message_names_ids:
  "sublist id1 (messageOf (NestedSegments id2 id1)) \<and>
   sublist id2 (messageOf (NestedSegments id2 id1))"
proof
  have "messageOf (NestedSegments id2 id1) =
      (''Nested segments not allowed: segment '' @ [CHR 0x27] @ id2 @ [CHR 0x27]
         @ '' starts before '' @ [CHR 0x27]) @ id1 @ ([CHR 0x27] @ '' ends'')"
    by simp
  then show "sublist id1 (messageOf (NestedSegments id2 id1))"
    unfolding sublist_def by blast
  have "messageOf (NestedSegments id2 id1) =
      (''Nested segments not allowed: segment '' @ [CHR 0x27]) @ id2 @
      ([CHR 0x27] @ '' starts before '' @ [CHR 0x27] @ id1 @ [CHR 0x27] @ '' ends'')"
    by simp
  then show "sublist id2 (messageOf (NestedSegments id2 id1))"
    unfolding sublist_def by blast
qed

text \<open>
  C2 (amended). In primitives/segments/parser.ts: when the frontmatter is read, the
  counts of start and end markers agree, start marker \<open>i + 1\<close> begins before end
  marker \<open>i\<close> begins and the ordering check passes up to \<open>i\<close>, parsing fails with the
  nesting error of the first such pair, and the message holds both ids.
\<close>

theorem nested_markers_rejected:
  assumes "extractFrontmatterPart yamlParse docText = Inr (fm, off, content)"
      and "length (startMatches content) = length (endMatches content)"
      and "Suc i < length (startMatches content)"
      and "nestedAt (startMatches content) (endMatches content) i"
      and "\<forall>j\<le>i. orderedAt (startMatches content) (endMatches content) j"
  shows "\<exists>j\<le>i. \<exists>outer inner.
           outer = m_capture (startMatches content ! j) \<and>
           inner = m_capture (startMatches content ! Suc j) \<and>
           nestedAt (startMatches content) (endMatches content) j \<and>
           (\<forall>k<j. \<not> nestedAt (startMatches content) (endMatches content) k) \<and>
           parseSegments yamlParse docText = Inl (NestedSegments inner outer) \<and>
           sublist outer (messageOf (NestedSegments inner outer)) \<and>
           sublist inner (messageOf (NestedSegments inner outer))"
proof -
  from pairMarkers_nested [OF assms(2-5), of off "[]"]
  obtain j where j: "j \<le> i" "nestedAt (startMatches content) (endMatches content) j"
      "\<forall>k<j. \<not> nestedAt (startMatches content) (endMatches content) k"
      "pairMarkers off (startMatches content) (endMatches content) [] =
         Inl (NestedSegments (m_capture (startMatches content ! Suc j))
                             (m_capture (startMatches content ! j)))"
    by blast
  have "parseSegments yamlParse docText =
          Inl (NestedSegments (m_capture (startMatches content ! Suc j))
                              (m_capture (startMatches content ! j)))"
    using assms(1,2) j(4) by (simp add: parseSegments_def parseMarkers_def)
  then show ?thesis
    using j(1-3) nested_message_names_ids by blast
qed

lemma nestedOnOneLine_matches:
  "startMatches nestedOnOneLine =
     [\<lparr>m_index = 0, m_capture = ''A'', m_length = 39\<rparr>,
      \<lparr>m_index = 43, m_capture = ''B'', m_length = 39\<rparr>]"
  "endMatches nestedOnOneLine =
     [\<lparr>m_index = 85, m_capture = (), m_length = 29\<rparr>,
      \<lparr>m_index = 118, m_capture = (), m_length = 29\<rparr>]"
  by (simp_all add: nestedOnOneLine_def startMatches_def endMatches_def startMarker_def
      endMarker_def matchSegmentStart_def matchSegmentEnd_def spaces1_def quoted_def
      dquote_def isSpace_def)

lemma no_frontmatter_nestedOnOneLine:
  "extractFrontmatterPart (\<lambda>y. None) nestedOnOneLine = Inr (emptyFrontmatter, 0, nestedOnOneLine)"
  by (simp add: extractFrontmatterPart_def matchFrontmatter_def nestedOnOneLine_def
      startMarker_def)

theorem nested_markers_rejected_witness:
  "parseSegments (\<lambda>y. None) nestedOnOneLine = Inl (NestedSegments ''B'' ''A'')"
proof -
  have "\<exists>j\<le>0. \<exists>outer inner.
           outer = m_capture (startMatches nestedOnOneLine ! j) \<and>
           inner = m_capture (startMatches nestedOnOneLine ! Suc j) \<and>
           nestedAt (startMatches nestedOnOneLine) (endMatches nestedOnOneLine) j \<and>
           (\<forall>k<j. \<not> nestedAt (startMatches nestedOnOneLine) (endMatches nestedOnOneLine) k) \<and>
           parseSegments (\<lambda>y. None) nestedOnOneLine = Inl (NestedSegments inner outer) \<and>
           sublist outer (messageOf (NestedSegments inner outer)) \<and>
           sublist inner (messageOf (NestedSegments inner outer))"
    by (rule nested_markers_rejected [OF no_frontmatter_nestedOnOneLine])
       (simp_all add: nestedOnOneLine_matches nestedAt_def orderedAt_def)
  then show ?thesis
    by (simp add: nestedOnOneLine_matches)
qed

text \<open>
  C2 as stated fails on the line parser of src/segments.ts: its nesting error names
  the line, not the ids, and when the markers share a line it reports the first
  segment as unclosed.
\<close>

theorem nested_markers_counterexample:
  "parseSegmentsByLine nestedOnLines = Inl (NestedMarkers 2)
   \<and> lineMessageOf (NestedMarkers 2) = ''Nested segment markers not allowed at line 2''
   \<and> \<not> sublist ''outer'' (lineMessageOf (NestedMarkers 2))
   \<and> \<not> sublist ''inner'' (lineMessageOf (NestedMarkers 2))
   \<and> parseSegmentsByLine nestedOnOneLine = Inl (UnclosedMarker ''A'')"
proof (intro conjI)
  show "parseSegmentsByLine nestedOnLines = Inl (NestedMarkers 2)"
    by (simp add: parseSegmentsByLine_def nestedOnLines_def startMarker_def endMarker_def
        matchLineStart_def matchLineEnd_def optionalAttribute_def spaces1_def quoted_def
        dquote_def newline_def isSpace_def)
  show msg: "lineMessageOf (NestedMarkers 2) = ''Nested segment markers not allowed at line 2''"
    by (simp add: digitsOf.simps)
  show "\<not> sublist ''outer'' (lineMessageOf (NestedMarkers 2))"
    unfolding msg by (simp add: sublist_Cons_right)
  show "\<not> sublist ''inner'' (lineMessageOf (NestedMarkers 2))"
    unfolding msg by (simp add: sublist_Cons_right)
  show "parseSegmentsByLine nestedOnOneLine = Inl (UnclosedMarker ''A'')"
    by (simp add: parseSegmentsByLine_def nestedOnOneLine_def startMarker_def endMarker_def
        matchLineStart_def matchLineEnd_def optionalAttribute_def spaces1_def quoted_def
        dquote_def newline_def isSpace_def)
qed

section \<open>Unclosed and unmatched markers\<close>

lemma lineLoop_runMarkers:
  "map_sum (\<lambda>e. e) (\<lambda>st. map_option os_key (fst st)) (lineLoop lines i cur content segs) =
     runMarkers (markerLinesFrom i lines) (map_option os_key cur)"
proof (induction lines arbitrary: i cur content segs)
  case Nil
  show ?case by simp
next
  case (Cons line rest)
  show ?case
  proof (cases "searchLine matchLineStart line")
    case (Some m)
    then show ?thesis
      by (cases m; cases cur) (simp_all add: markerOfLine_def Cons.IH)
  next
    case None
    then show ?thesis
      by (cases "searchLine matchLineEnd line"; cases cur)
         (simp_all add: markerOfLine_def Cons.IH)
  qed
qed

lemma runMarkers_paired_kinds:
  "paired ks \<Longrightarrow> map snd pre = ks \<Longrightarrow> runMarkers (pre @ ms) None = runMarkers ms None"
proof (induction ks arbitrary: pre rule: paired.induct)
  case (2 key rest)
  then obtain n1 n2 pre' where pre: "pre = (n1, StartLine key) # (n2, EndLine) # pre'"
    and rest: "map snd pre' = rest"
    by (auto simp: map_eq_Cons_conv)
  have "runMarkers (pre' @ ms) None = runMarkers ms None"
    using 2 rest by simp
  then show ?case using pre by simp
qed simp_all

lemma runMarkers_paired:
  "paired (map snd pre) \<Longrightarrow> runMarkers (pre @ ms) None = runMarkers ms None"
  by (rule runMarkers_paired_kinds [OF _ refl])

lemma parseSegmentsByLine_runMarkers:
  "runMarkers (markerLines md) None = Inr (Some key) \<Longrightarrow>
     parseSegmentsByLine md = Inl (UnclosedMarker key)"
  "runMarkers (markerLines md) None = Inl err \<Longrightarrow> parseSegmentsByLine md = Inl err"
  using lineLoop_runMarkers [of "splitOn newline md" 0 None "[]" "[]"]
  by (auto simp: parseSegmentsByLine_def markerLines_def split: sum.splits option.splits)

text \<open>
  C3 (amended). In the line parser of src/segments.ts: when the marker lines are
  start and end lines in pairs and then one more start line, the scan ends with that
  segment open and parsing fails with the unclosed-marker error for its key; when they
  are pairs and then an end line, parsing fails with the unmatched-end-marker error for
  that line; and the two messages differ, whatever the key and the line.
\<close>

theorem unclosed_and_unmatched_distinguished:
  "(markerLines md = pre @ [(n, StartLine key)] \<and> paired (map snd pre) \<longrightarrow>
      parseSegmentsByLine md = Inl (UnclosedMarker key))
   \<and> (markerLines md = pre @ (n, EndLine) # post \<and> paired (map snd pre) \<longrightarrow>
      parseSegmentsByLine md = Inl (UnmatchedEnd n))
   \<and> lineMessageOf (UnclosedMarker key) \<noteq> lineMessageOf (UnmatchedEnd n)"
proof (intro conjI impI)
  assume "markerLines md = pre @ [(n, StartLine key)] \<and> paired (map snd pre)"
  then have "runMarkers (markerLines md) None = Inr (Some key)"
    by (simp add: runMarkers_paired)
  then show "parseSegmentsByLine md = Inl (UnclosedMarker key)"
    by (rule parseSegmentsByLine_runMarkers)
next
  assume "markerLines md = pre @ (n, EndLine) # post \<and> paired (map snd pre)"
  then have "runMarkers (markerLines md) None = Inl (UnmatchedEnd n)"
    by (simp add: runMarkers_paired)
  then show "parseSegmentsByLine md = Inl (UnmatchedEnd n)"
    by (rule parseSegmentsByLine_runMarkers)
next
  show "lineMessageOf (UnclosedMarker key) \<noteq> lineMessageOf (UnmatchedEnd n)"
    by simp
qed

lemma example_markerLines:
  "markerLines unclosedDoc = [] @ [(1, StartLine ''test'')]"
  "markerLines loneEndDoc = [] @ (2, EndLine) # []"
  by (simp_all add: markerLines_def unclosedDoc_def loneEndDoc_def markerOfLine_def
      startMarker_def endMarker_def matchLineStart_def matchLineEnd_def
      optionalAttribute_def spaces1_def quoted_def dquote_def newline_def isSpace_def)

theorem unclosed_and_unmatched_distinguished_witness:
  "parseSegmentsByLine unclosedDoc = Inl (UnclosedMarker ''test'')
   \<and> parseSegmentsByLine loneEndDoc = Inl (UnmatchedEnd 2)"
  using unclosed_and_unmatched_distinguished [of unclosedDoc "[]" 1 "''test''"]
        unclosed_and_unmatched_distinguished [of loneEndDoc "[]" 2 _ "[]"]
        example_markerLines
  by simp

text \<open>
  C3 as stated fails on the parser of primitives/segments/parser.ts: an unclosed start
  marker and a lone end marker both end in its marker-count error, and an end marker
  ahead of the only start marker in its ordering error.
\<close>

theorem unclosed_and_unmatched_counterexample:
  "parseSegments (\<lambda>y. None) unclosedDoc = Inl (MismatchedMarkers 1 0)
   \<and> parseSegments (\<lambda>y. None) loneEndDoc = Inl (MismatchedMarkers 0 1)
   \<and> messageOf (MismatchedMarkers 1 0) =
       ''Mismatched segment markers: found 1 start markers and 0 end markers''
   \<and> messageOf (MismatchedMarkers 0 1) =
       ''Mismatched segment markers: found 0 start markers and 1 end markers''
   \<and> parseSegments (\<lambda>y. None) (endMarker @ startMarker ''a'') = Inl EndBeforeStart"
  by (simp add: parseSegments_def extractFrontmatterPart_def matchFrontmatter_def
      parseMarkers_def startMatches_def endMatches_def unclosedDoc_def loneEndDoc_def
      startMarker_def endMarker_def matchSegmentStart_def matchSegmentEnd_def spaces1_def
      quoted_def dquote_def newline_def isSpace_def digitsOf.simps)

section \<open>Parsing and validation in two phases\<close>

lemma strictSpecFindings_messages:
  "e \<in> set (strictSpecFindings seen spec) \<Longrightarrow>
     ve_message e \<noteq> markerWithoutSpec \<and> ve_message e \<noteq> specWithoutMarker"
  by (auto simp: strictSpecFindings_def duplicateSpecFindings_def bothConfigFindings_def
      returnRangeFindings_def generateRangeFindings_def boostFindings_def finding_def
      markerWithoutSpec_def specWithoutMarker_def split: if_splits option.splits)

lemma looseSpecFindings_messages:
  "e \<in> set (looseSpecFindings seen spec) \<Longrightarrow>
     ve_message e \<noteq> markerWithoutSpec \<and> ve_message e \<noteq> specWithoutMarker"
  by (auto simp: looseSpecFindings_def duplicateSpecFindings_def bothConfigFindings_def
      returnRangeFindings_def generateRangeFindings_def boostFindings_def finding_def
      markerWithoutSpec_def specWithoutMarker_def split: if_splits option.splits)

lemma duplicateMarkerFindings_messages:
  "e \<in> set (duplicateMarkerFindings ids seg) \<Longrightarrow>
     ve_message e \<noteq> markerWithoutSpec \<and> ve_message e \<noteq> specWithoutMarker"
  by (auto simp: duplicateMarkerFindings_def finding_def
      markerWithoutSpec_def specWithoutMarker_def split: if_splits)

lemma markers_differ: "markerWithoutSpec \<noteq> specWithoutMarker"
  by (simp add: markerWithoutSpec_def specWithoutMarker_def)

lemma specLoop_filter:
  assumes "\<And>seen spec e. e \<in> set (turn seen spec) \<Longrightarrow> \<not> P e"
  shows "filter P (fst (specLoop turn specs (errs, seen))) = filter P errs"
proof (induction specs arbitrary: errs seen)
  case Nil
  show ?case by simp
next
  case (Cons spec specs)
  have "filter P (turn seen spec) = []"
    using assms by (auto simp: filter_empty_conv)
  then show ?case by (simp add: Cons.IH)
qed

lemma markerLoop_filter:
  assumes "\<And>ids seg e. e \<in> set (turn ids seg) \<Longrightarrow> \<not> P e"
  shows "filter P (fst (markerLoop turn segs (errs, ids))) = filter P errs"
proof (induction segs arbitrary: errs ids)
  case Nil
  show ?case by simp
next
  case (Cons seg segs)
  have "filter P (turn ids seg) = []"
    using assms by (auto simp: filter_empty_conv)
  then show ?case by (simp add: Cons.IH)
qed

lemma markerLoop_ids:
  "snd (markerLoop turn segs (errs, ids)) = ids \<union> si_id ` set segs"
  by (induction segs arbitrary: errs ids) auto

lemma strictMarkerFindings_without_spec:
  "filter (\<lambda>e. ve_message e = markerWithoutSpec) (strictMarkerFindings ids seg) =
     (if si_spec seg = None then [finding (Some (si_id seg)) None markerWithoutSpec] else [])"
proof -
  have "filter (\<lambda>e. ve_message e = markerWithoutSpec) (duplicateMarkerFindings ids seg) = []"
    using duplicateMarkerFindings_messages by (auto simp: filter_empty_conv)
  then show ?thesis
    by (simp add: strictMarkerFindings_def finding_def)
qed

lemma strictMarkerLoop_without_spec:
  "filter (\<lambda>e. ve_message e = markerWithoutSpec)
      (fst (markerLoop strictMarkerFindings segs (errs, ids))) =
   filter (\<lambda>e. ve_message e = markerWithoutSpec) errs @
   map (\<lambda>seg. finding (Some (si_id seg)) None markerWithoutSpec)
       (filter (\<lambda>seg. si_spec seg = None) segs)"
  by (induction segs arbitrary: errs ids) (simp_all add: strictMarkerFindings_without_spec)

lemma strictMarkerFindings_not_missing:
  "e \<in> set (strictMarkerFindings ids seg) \<Longrightarrow> ve_message e \<noteq> specWithoutMarker"
  using duplicateMarkerFindings_messages [of e ids seg] markers_differ
  by (auto simp: strictMarkerFindings_def finding_def split: if_splits)

lemma missingMarkerLoop_eq:
  "missingMarkerLoop ids specs errs =
     errs @ map (\<lambda>spec. finding (Some (sp_id spec)) None specWithoutMarker)
              (filter (\<lambda>spec. sp_id spec \<notin> ids) specs)"
  by (induction specs arbitrary: errs) auto

lemma validateSegments_without_spec:
  "filter (\<lambda>e. ve_message e = markerWithoutSpec) (validateSegments parsed) =
     map (\<lambda>seg. finding (Some (si_id seg)) None markerWithoutSpec)
         (filter (\<lambda>seg. si_spec seg = None) (pd_segments parsed))"
proof -
  obtain errors1 seen where l1: "specLoop strictSpecFindings (specsOf parsed) ([], {}) = (errors1, seen)"
    by (cases "specLoop strictSpecFindings (specsOf parsed) ([], {})")
  obtain errors2 ids where l2: "markerLoop strictMarkerFindings (pd_segments parsed) (errors1, {}) = (errors2, ids)"
    by (cases "markerLoop strictMarkerFindings (pd_segments parsed) (errors1, {})")
  have e1: "filter (\<lambda>e. ve_message e = markerWithoutSpec) errors1 = []"
    using specLoop_filter [of strictSpecFindings "\<lambda>e. ve_message e = markerWithoutSpec"
        "specsOf parsed" "[]" "{}"] strictSpecFindings_messages l1
    by simp
  have e2: "filter (\<lambda>e. ve_message e = markerWithoutSpec) errors2 =
      map (\<lambda>seg. finding (Some (si_id seg)) None markerWithoutSpec)
          (filter (\<lambda>seg. si_spec seg = None) (pd_segments parsed))"
    using strictMarkerLoop_without_spec [of "pd_segments parsed" errors1 "{}"] l2 e1 by simp
  have e3: "filter (\<lambda>e. ve_message e = markerWithoutSpec)
              (map (\<lambda>spec. finding (Some (sp_id spec)) None specWithoutMarker) xs) = []" for xs
    using markers_differ by (induction xs) (auto simp: finding_def)
  show ?thesis
    by (simp add: validateSegments_def l1 l2 missingMarkerLoop_eq e2 e3)
qed

lemma validateSegments_without_marker:
  "filter (\<lambda>e. ve_message e = specWithoutMarker) (validateSegments parsed) =
     map (\<lambda>spec. finding (Some (sp_id spec)) None specWithoutMarker)
         (filter (\<lambda>spec. sp_id spec \<notin> si_id ` set (pd_segments parsed)) (specsOf parsed))"
proof -
  obtain errors1 seen where l1: "specLoop strictSpecFindings (specsOf parsed) ([], {}) = (errors1, seen)"
    by (cases "specLoop strictSpecFindings (specsOf parsed) ([], {})")
  obtain errors2 ids where l2: "markerLoop strictMarkerFindings (pd_segments parsed) (errors1, {}) = (errors2, ids)"
    by (cases "markerLoop strictMarkerFindings (pd_segments parsed) (errors1, {})")
  have ids: "ids = si_id ` set (pd_segments parsed)"
    using markerLoop_ids [of strictMarkerFindings "pd_segments parsed" errors1 "{}"] l2 by simp
  have e1: "filter (\<lambda>e. ve_message e = specWithoutMarker) errors1 = []"
    using specLoop_filter [of strictSpecFindings "\<lambda>e. ve_message e = specWithoutMarker"
        "specsOf parsed" "[]" "{}"] strictSpecFindings_messages l1
    by simp
  have e2: "filter (\<lambda>e. ve_message e = specWithoutMarker) errors2 = []"
    using markerLoop_filter [of strictMarkerFindings "\<lambda>e. ve_message e = specWithoutMarker"
        "pd_segments parsed" errors1 "{}"] strictMarkerFindings_not_missing l2 e1
    by simp
  have e3: "filter (\<lambda>e. ve_message e = specWithoutMarker)
              (map (\<lambda>spec. finding (Some (sp_id spec)) None specWithoutMarker) xs) =
            map (\<lambda>spec. finding (Some (sp_id spec)) None specWithoutMarker) xs" for xs
    by (induction xs) (auto simp: finding_def)
  show ?thesis
    by (simp add: validateSegments_def l1 l2 missingMarkerLoop_eq e2 e3 ids)
qed

lemma validateLoose_tolerates:
  "filter (\<lambda>e. ve_message e = markerWithoutSpec \<or> ve_message e = specWithoutMarker)
     (validateLoose parsed) = []"
proof -
  let ?P = "\<lambda>e. ve_message e = markerWithoutSpec \<or> ve_message e = specWithoutMarker"
  obtain errors1 seen where l1: "specLoop looseSpecFindings (specsOf parsed) ([], {}) = (errors1, seen)"
    by (cases "specLoop looseSpecFindings (specsOf parsed) ([], {})")
  have e1: "filter ?P errors1 = []"
    using specLoop_filter [of looseSpecFindings ?P "specsOf parsed" "[]" "{}"]
      looseSpecFindings_messages l1
    by auto
  have "filter ?P (fst (markerLoop duplicateMarkerFindings (pd_segments parsed) (errors1, {}))) = []"
    using markerLoop_filter [of duplicateMarkerFindings ?P "pd_segments parsed" errors1 "{}"]
      duplicateMarkerFindings_messages e1
    by auto
  then show ?thesis by (simp add: validateLoose_def l1)
qed

lemma buildSpecMap_None:
  "buildSpecMap fm k = None \<longleftrightarrow>
     k \<notin> sp_id ` set (case fm_segments fm of None \<Rightarrow> [] | Some specs \<Rightarrow> specs)"
proof -
  have "dom (foldl (\<lambda>specMap spec. specMap(sp_id spec \<mapsto> spec)) m specs) =
          dom m \<union> sp_id ` set specs" for m :: "string \<rightharpoonup> SegmentSpec" and specs
    by (induction specs arbitrary: m) auto
  from this [of Map.empty] show ?thesis
    by (auto simp: buildSpecMap_def domIff split: option.splits)
qed

text \<open>
  C4 (amended). Whenever the frontmatter is read, that is the \<^verbatim>\<open>try\<close> block around
  \<^verbatim>\<open>yaml.parse\<close> does not throw, and the markers pair, \<^verbatim>\<open>parseSegments\<close> returns
  a document with one instance per marker pair, in order, whose spec is absent exactly
  when no frontmatter spec has the marker's id. On that document strict validation has
  one marker-without-spec finding for each instance without a spec and one
  spec-without-marker finding for each spec whose id no marker has; loose validation
  has neither kind of finding.
\<close>

theorem two_phase_separation:
  assumes "extractFrontmatterPart yamlParse docText = Inr (fm, off, content)"
      and "parseMarkers content off = Inr markers"
  shows "\<exists>parsed.
           parseSegments yamlParse docText = Inr parsed
           \<and> pd_frontmatter parsed = fm
           \<and> map si_id (pd_segments parsed) = map mr_id markers
           \<and> (\<forall>seg \<in> set (pd_segments parsed).
                 si_spec seg = None \<longleftrightarrow> si_id seg \<notin> sp_id ` set (specsOf parsed))
           \<and> filter (\<lambda>e. ve_message e = markerWithoutSpec) (validateStrict parsed) =
                 map (\<lambda>seg. finding (Some (si_id seg)) None markerWithoutSpec)
                     (filter (\<lambda>seg. si_spec seg = None) (pd_segments parsed))
           \<and> filter (\<lambda>e. ve_message e = specWithoutMarker) (validateStrict parsed) =
                 map (\<lambda>spec. finding (Some (sp_id spec)) None specWithoutMarker)
                     (filter (\<lambda>spec. sp_id spec \<notin> si_id ` set (pd_segments parsed))
                             (specsOf parsed))
           \<and> filter (\<lambda>e. ve_message e = markerWithoutSpec \<or> ve_message e = specWithoutMarker)
                 (validateLoose parsed) = []"
proof -
  let ?parsed = "\<lparr>pd_frontmatter = fm,
                  pd_segments = map (buildInstance docText (buildSpecMap fm)) markers,
                  pd_frontmatterEndByte = off,
                  pd_contentWithoutFrontmatter = content\<rparr>"
  have parse: "parseSegments yamlParse docText = Inr ?parsed"
    using assms by (simp add: parseSegments_def)
  have ids: "map si_id (pd_segments ?parsed) = map mr_id markers"
    by (simp add: buildInstance_def)
  have specs: "\<forall>seg \<in> set (pd_segments ?parsed).
                 si_spec seg = None \<longleftrightarrow> si_id seg \<notin> sp_id ` set (specsOf ?parsed)"
    by (auto simp: buildInstance_def buildSpecMap_None specsOf_def)
  show ?thesis
    using parse ids specs validateSegments_without_spec [of ?parsed]
      validateSegments_without_marker [of ?parsed] validateLoose_tolerates [of ?parsed]
    unfolding validateStrict_def
    by (intro exI [of _ ?parsed] conjI) simp_all
qed

lemma partialDoc_frontmatter:
  "extractFrontmatterPart partialYaml partialDoc =
     Inr (normalizeFrontmatter partialFrontmatter, 24,
          ''# Title'' @ [newline] @ startMarker ''body'' @ [newline] @ ''Text.'' @ [newline] @
          endMarker @ [newline])"
  by (simp add: extractFrontmatterPart_def matchFrontmatter_def closeFrontmatter_def
      optional_def partialDoc_def partialYaml_def newline_def substringFrom_def clampIndex_def
      startMarker_def endMarker_def)

lemma partialDoc_markers:
  "parseMarkers (''# Title'' @ [newline] @ startMarker ''body'' @ [newline] @ ''Text.'' @ [newline]
                   @ endMarker @ [newline]) 24 =
     Inr [\<lparr>mr_id = ''body'', startMarkerBegin = 32, startMarkerEnd = 74,
           endMarkerBegin = 81, endMarkerEnd = 110\<rparr>]"
  by (simp add: parseMarkers_def startMatches_def endMatches_def startMarker_def endMarker_def
      matchSegmentStart_def matchSegmentEnd_def spaces1_def quoted_def dquote_def newline_def
      isSpace_def)

theorem two_phase_separation_witness:
  "\<exists>parsed.
     parseSegments partialYaml partialDoc = Inr parsed
     \<and> map si_spec (pd_segments parsed) = [None]
     \<and> filter (\<lambda>e. ve_message e = markerWithoutSpec) (validateStrict parsed) =
           [finding (Some ''body'') None markerWithoutSpec]
     \<and> filter (\<lambda>e. ve_message e = specWithoutMarker) (validateStrict parsed) =
           [finding (Some ''intro'') None specWithoutMarker]
     \<and> filter (\<lambda>e. ve_message e = markerWithoutSpec \<or> ve_message e = specWithoutMarker)
           (validateLoose parsed) = []"
proof -
  from two_phase_separation [OF partialDoc_frontmatter partialDoc_markers]
  obtain parsed where p:
    "parseSegments partialYaml partialDoc = Inr parsed"
    "pd_frontmatter parsed = normalizeFrontmatter partialFrontmatter"
    "map si_id (pd_segments parsed) = map mr_id [\<lparr>mr_id = ''body'', startMarkerBegin = 32,
        startMarkerEnd = 74, endMarkerBegin = 81, endMarkerEnd = 110\<rparr>]"
    "\<forall>seg \<in> set (pd_segments parsed).
        si_spec seg = None \<longleftrightarrow> si_id seg \<notin> sp_id ` set (specsOf parsed)"
    "filter (\<lambda>e. ve_message e = markerWithoutSpec) (validateStrict parsed) =
        map (\<lambda>seg. finding (Some (si_id seg)) None markerWithoutSpec)
            (filter (\<lambda>seg. si_spec seg = None) (pd_segments parsed))"
    "filter (\<lambda>e. ve_message e = specWithoutMarker) (validateStrict parsed) =
        map (\<lambda>spec. finding (Some (sp_id spec)) None specWithoutMarker)
            (filter (\<lambda>spec. sp_id spec \<notin> si_id ` set (pd_segments parsed)) (specsOf parsed))"
    "filter (\<lambda>e. ve_message e = markerWithoutSpec \<or> ve_message e = specWithoutMarker)
        (validateLoose parsed) = []"
    by blast
  have specs: "specsOf parsed = [normalizeSpec introSpec]"
    using p(2) by (simp add: specsOf_def normalizeFrontmatter_def partialFrontmatter_def)
  obtain seg where seg: "pd_segments parsed = [seg]" "si_id seg = ''body''"
    using p(3) by (auto simp: map_eq_Cons_conv)
  have none: "si_spec seg = None"
    using p(4) seg specs by (simp add: normalizeSpec_def introSpec_def)
  show ?thesis
    using p(1) p(5) p(6) p(7) seg none specs
    by (intro exI [of _ parsed]) (simp add: normalizeSpec_def introSpec_def)
qed

text \<open>
  C4 as stated fails. The markers of this document pair, one segment \<^verbatim>\<open>body\<close>, but
  its frontmatter block is not YAML: \<^verbatim>\<open>yaml.parse\<close> throws, and \<^verbatim>\<open>parseSegments\<close>
  fails with the frontmatter error instead of returning instances.
\<close>

theorem two_phase_separation_counterexample:
  "matchFrontmatter malformedYamlDoc = Some (''semcontext: ['', 22)
   \<and> parseMarkers (substringFrom malformedYamlDoc 22) 22 =
       Inr [\<lparr>mr_id = ''body'', startMarkerBegin = 30, startMarkerEnd = 72,
             endMarkerBegin = 79, endMarkerEnd = 108\<rparr>]
   \<and> parseSegments strictYaml malformedYamlDoc = Inl YamlFailure"
  by (simp add: parseSegments_def extractFrontmatterPart_def matchFrontmatter_def
      closeFrontmatter_def optional_def malformedYamlDoc_def strictYaml_def newline_def
      substringFrom_def clampIndex_def parseMarkers_def startMatches_def endMatches_def startMarker_def endMarker_def
      matchSegmentStart_def matchSegmentEnd_def spaces1_def quoted_def dquote_def isSpace_def)

section \<open>Journeys: cycle detection\<close>

lemma closed_reach:
  assumes "\<forall>u\<in>S. set (neighborsOf g u) \<subseteq> S"
      and "(v, w) \<in> (graphEdges g)\<^sup>*" and "v \<in> S"
  shows "w \<in> S"
  using assms(2,3)
proof (induction rule: rtrancl_induct)
  case base
  then show ?case .
next
  case (step y z)
  then show ?case using assms(1) by (auto simp: graphEdges_def)
qed

lemma no_cycle_through_new:
  assumes "\<forall>u\<in>S. set (neighborsOf g u) \<subseteq> S"
      and "set (neighborsOf g n) \<subseteq> S" and "n \<notin> S"
  shows "(n, n) \<notin> (graphEdges g)\<^sup>+"
proof
  assume "(n, n) \<in> (graphEdges g)\<^sup>+"
  then obtain v where "(n, v) \<in> graphEdges g" and "(v, n) \<in> (graphEdges g)\<^sup>*"
    by (meson tranclD)
  then have "v \<in> S" using assms(2) by (auto simp: graphEdges_def)
  with \<open>(v, n) \<in> (graphEdges g)\<^sup>*\<close> have "n \<in> S"
    using closed_reach [OF assms(1)] by blast
  with assms(3) show False by contradiction
qed

lemma card_Diff_insert_le:
  assumes "finite U" and "n \<in> U" and "n \<notin> V" and "card (U - V) \<le> Suc k"
  shows "card (U - insert n V) \<le> k"
proof -
  have "n \<in> U - V" using assms by simp
  moreover have "U - insert n V = (U - V) - {n}" by auto
  ultimately have "card (U - insert n V) = card (U - V) - 1"
    using assms(1) by (simp add: card_Diff_singleton)
  then show ?thesis using assms(4) by simp
qed

lemma enter_node:
  assumes "finite U" and "dfsPre g U n (V, R) (Suc k)"
  shows "loopPre g U n (neighborsOf g n) (insert n V, insert n R) k"
proof -
  from assms(2) have inv: "traversalInv g U (V, R)" and nV: "n \<notin> V" and nU: "n \<in> U"
    and reach: "\<forall>r\<in>R. (r, n) \<in> (graphEdges g)\<^sup>+" and c: "card (U - V) \<le> Suc k"
    by (simp_all add: dfsPre_def)
  from inv have RV: "R \<subseteq> V" by (simp add: traversalInv_def)
  with nV have nR: "n \<notin> R" by auto
  have fin_eq: "finished (insert n V, insert n R) = finished (V, R)"
    using nV by (auto simp: finished_def)
  have "traversalInv g U (insert n V, insert n R)"
    using inv nU RV unfolding traversalInv_def fin_eq by auto
  moreover have "\<forall>r\<in>insert n R. (r, n) \<in> (graphEdges g)\<^sup>*"
    using reach by (auto intro: trancl_into_rtrancl)
  moreover have "card (U - insert n V) \<le> k"
    using assms(1) nU nV c by (rule card_Diff_insert_le)
  ultimately show ?thesis by (simp add: loopPre_def)
qed

lemma leave_node:
  assumes "dfsPre g U n (V, R) k'" and "loopPost g U n (insert n V, insert n R) res"
  shows "dfsPost g U n (V, R) res"
proof -
  from assms(1) have inv: "traversalInv g U (V, R)" and nV: "n \<notin> V"
    by (simp_all add: dfsPre_def)
  from inv have "R \<subseteq> V" by (simp add: traversalInv_def)
  with nV have nR: "insert n R - {n} = R" by auto
  show ?thesis
  proof (cases res)
    case None
    with assms(2) show ?thesis by (simp add: loopPost_def)
  next
    case (Some r)
    obtain found st' where r: "r = (found, st')" by (cases r)
    show ?thesis
      using assms(2) nR unfolding Some r dfsPost_def loopPost_def
      by (cases found) auto
  qed
qed

lemma loop_done:
  assumes "loopPre g U n [] (V, R) k"
  shows "loopPost g U n (V, R) (Some (False, V, R - {n}))"
proof -
  from assms have inv: "traversalInv g U (V, R)" and nR: "n \<in> R"
    and nb: "set (neighborsOf g n) \<subseteq> finished (V, R)"
    by (simp_all add: loopPre_def)
  from inv have RV: "R \<subseteq> V" and VU: "V \<subseteq> U"
    and closed: "\<forall>u\<in>finished (V, R). set (neighborsOf g u) \<subseteq> finished (V, R)"
    and acyc: "\<forall>u\<in>finished (V, R). (u, u) \<notin> (graphEdges g)\<^sup>+"
    by (simp_all add: traversalInv_def)
  have fin_eq: "finished (V, R - {n}) = insert n (finished (V, R))"
    using nR RV by (auto simp: finished_def)
  have "n \<notin> finished (V, R)" using nR by (simp add: finished_def)
  with closed nb have "(n, n) \<notin> (graphEdges g)\<^sup>+"
    by (rule no_cycle_through_new)
  then have "traversalInv g U (V, R - {n})"
    unfolding traversalInv_def fin_eq using RV VU closed acyc nb by auto
  then show ?thesis by (simp add: loopPost_def)
qed

lemma call_neighbor:
  assumes "\<forall>u. set (neighborsOf g u) \<subseteq> U"
      and "loopPre g U n (v # rest) (V, R) k" and "v \<notin> V"
  shows "dfsPre g U v (V, R) k"
proof -
  from assms(2) have inv: "traversalInv g U (V, R)"
    and reach: "\<forall>r\<in>R. (r, n) \<in> (graphEdges g)\<^sup>*"
    and v: "v \<in> set (neighborsOf g n)" and c: "card (U - V) \<le> k"
    by (simp_all add: loopPre_def)
  have edge: "(n, v) \<in> graphEdges g" using v by (simp add: graphEdges_def)
  have "\<forall>r\<in>R. (r, v) \<in> (graphEdges g)\<^sup>+"
    using reach edge by (auto intro: rtrancl_into_trancl1)
  moreover have "v \<in> U" using assms(1) v by auto
  ultimately show ?thesis using inv assms(3) c by (simp add: dfsPre_def)
qed

lemma after_neighbor:
  assumes "finite U" and "loopPre g U n (v # rest) (V, R) k" and "v \<notin> V"
      and "dfsPost g U v (V, R) (Some (False, st'))"
  shows "loopPre g U n rest st' k"
proof -
  from assms(2) have inv: "traversalInv g U (V, R)" and nR: "n \<in> R"
    and reach: "\<forall>r\<in>R. (r, n) \<in> (graphEdges g)\<^sup>*"
    and sub: "set rest \<subseteq> set (neighborsOf g n)"
    and nb: "set (neighborsOf g n) \<subseteq> insert v (set rest) \<union> finished (V, R)"
    and c: "card (U - V) \<le> k"
    by (simp_all add: loopPre_def)
  from assms(4) have R': "snd st' = R" and V': "V \<subseteq> fst st'" and v': "v \<in> fst st'"
    and inv': "traversalInv g U st'"
    by (simp_all add: dfsPost_def)
  from inv have "R \<subseteq> V" by (simp add: traversalInv_def)
  with assms(3) have "v \<notin> R" by auto
  with v' R' have vfin: "v \<in> finished st'" by (simp add: finished_def)
  have mono: "finished (V, R) \<subseteq> finished st'"
    using V' R' by (auto simp: finished_def)
  have "set (neighborsOf g n) \<subseteq> set rest \<union> finished st'"
    using nb vfin mono by auto
  moreover have "card (U - fst st') \<le> k"
  proof -
    have "U - fst st' \<subseteq> U - V" using V' by auto
    then have "card (U - fst st') \<le> card (U - V)"
      using assms(1) by (intro card_mono) auto
    with c show ?thesis by simp
  qed
  ultimately show ?thesis
    using inv' nR reach sub R' by (simp add: loopPre_def)
qed

lemma loopPost_transfer:
  assumes "loopPost g U n st' res" and "snd st' = R" and "V \<subseteq> fst st'"
  shows "loopPost g U n (V, R) res"
  using assms unfolding loopPost_def by (auto split: option.splits if_splits)

lemma back_edge:
  assumes "loopPre g U n (v # rest) (V, R) k" and "v \<in> R"
  shows "cyclic (graphEdges g)"
proof -
  from assms have "(v, n) \<in> (graphEdges g)\<^sup>*" and "v \<in> set (neighborsOf g n)"
    by (simp_all add: loopPre_def)
  then have "(v, v) \<in> (graphEdges g)\<^sup>+"
    by (auto simp: graphEdges_def intro: rtrancl_into_trancl1)
  then show ?thesis by (auto simp: cyclic_def)
qed

lemma skip_finished:
  assumes "loopPre g U n (v # rest) (V, R) k" and "v \<in> V" and "v \<notin> R"
  shows "loopPre g U n rest (V, R) k"
  using assms by (auto simp: loopPre_def finished_def)

lemma dfs_sound_and_total:
  "finite U \<Longrightarrow> \<forall>u. set (neighborsOf g u) \<subseteq> U \<Longrightarrow> dfsPre g U n st k
     \<Longrightarrow> dfsPost g U n st (dfs k g n st)"
  "finite U \<Longrightarrow> \<forall>u. set (neighborsOf g u) \<subseteq> U \<Longrightarrow> loopPre g U n vs st k
     \<Longrightarrow> loopPost g U n st (dfsNeighbors k g n vs st)"
proof (induction k g n st and k g n vs st rule: dfs_dfsNeighbors.induct)
  case (1 graph nodeId st)
  then have "nodeId \<in> U - fst st" and "card (U - fst st) = 0"
    by (simp_all add: dfsPre_def)
  with \<open>finite U\<close> show ?case by auto
next
  case (2 depth graph nodeId visited recStack)
  have "loopPre graph U nodeId (neighborsOf graph nodeId)
          (insert nodeId visited, insert nodeId recStack) depth"
    using "2.prems"(1,3) by (rule enter_node)
  then have "loopPost graph U nodeId (insert nodeId visited, insert nodeId recStack)
      (dfsNeighbors depth graph nodeId (neighborsOf graph nodeId)
         (insert nodeId visited, insert nodeId recStack))"
    using "2.IH" "2.prems"(1,2) by blast
  with "2.prems"(3) show ?case
    by (simp add: leave_node)
next
  case (3 depth graph nodeId visited recStack)
  then show ?case by (simp add: loop_done)
next
  case (4 depth graph nodeId neighbor rest visited recStack)
  note pre = "4.prems"(3)
  show ?case
  proof (cases "neighbor \<in> visited")
    case False
    have "dfsPre graph U neighbor (visited, recStack) depth"
      using "4.prems"(2) pre False by (rule call_neighbor)
    then have post: "dfsPost graph U neighbor (visited, recStack)
        (dfs depth graph neighbor (visited, recStack))"
      using "4.IH"(1) False "4.prems"(1,2) by blast
    then obtain found st' where r: "dfs depth graph neighbor (visited, recStack) = Some (found, st')"
      by (cases "dfs depth graph neighbor (visited, recStack)") (auto simp: dfsPost_def)
    show ?thesis
    proof (cases found)
      case True
      with post r False show ?thesis by (simp add: dfsPost_def loopPost_def)
    next
      case nf: False
      have after: "loopPre graph U nodeId rest st' depth"
        using "4.prems"(1) pre False post [unfolded r] nf by (auto intro: after_neighbor)
      have "loopPost graph U nodeId st' (dfsNeighbors depth graph nodeId rest st')"
        using "4.IH"(2) [OF False r refl] nf "4.prems"(1,2) after by blast
      moreover from post r nf have "snd st' = recStack" and "visited \<subseteq> fst st'"
        by (simp_all add: dfsPost_def)
      ultimately have "loopPost graph U nodeId (visited, recStack)
          (dfsNeighbors depth graph nodeId rest st')"
        by (rule loopPost_transfer)
      with r nf False show ?thesis by simp
    qed
  next
    case True
    show ?thesis
    proof (cases "neighbor \<in> recStack")
      case inR: True
      with pre have "cyclic (graphEdges graph)" by (rule back_edge)
      with True inR show ?thesis by (simp add: loopPost_def)
    next
      case outR: False
      have "loopPre graph U nodeId rest (visited, recStack) depth"
        using pre True outR by (rule skip_finished)
      then have "loopPost graph U nodeId (visited, recStack)
          (dfsNeighbors depth graph nodeId rest (visited, recStack))"
        using "4.IH"(3) True outR "4.prems"(1,2) by blast
      with True outR show ?thesis by simp
    qed
  qed
qed

lemma startsPost_skip:
  assumes "startsPost g U V nodes res" and "jn_id node \<in> V"
  shows "startsPost g U V (node # nodes) res"
proof (cases res)
  case None
  with assms(1) show ?thesis by (simp add: startsPost_def)
next
  case (Some found)
  show ?thesis
  proof (cases found)
    case True
    with assms(1) Some show ?thesis by (simp add: startsPost_def)
  next
    case False
    with assms(1) Some obtain V' where "V \<subseteq> V'" "jn_id ` set nodes \<subseteq> V'"
      "traversalInv g U (V', {})"
      by (auto simp: startsPost_def)
    with assms(2) have "V \<subseteq> V' \<and> jn_id ` set (node # nodes) \<subseteq> V' \<and> traversalInv g U (V', {})"
      by auto
    then show ?thesis
      unfolding startsPost_def Some using False by (simp only: option.case if_False) blast
  qed
qed

lemma startsPost_after:
  assumes "startsPost g U V1 nodes res" and "V \<subseteq> V1" and "jn_id node \<in> V1"
  shows "startsPost g U V (node # nodes) res"
proof (cases res)
  case None
  with assms(1) show ?thesis by (simp add: startsPost_def)
next
  case (Some found)
  show ?thesis
  proof (cases found)
    case True
    with assms(1) Some show ?thesis by (simp add: startsPost_def)
  next
    case False
    with assms(1) Some obtain V' where "V1 \<subseteq> V'" "jn_id ` set nodes \<subseteq> V'"
      "traversalInv g U (V', {})"
      by (auto simp: startsPost_def)
    with assms(2,3) have "V \<subseteq> V' \<and> jn_id ` set (node # nodes) \<subseteq> V' \<and> traversalInv g U (V', {})"
      by auto
    then show ?thesis
      unfolding startsPost_def Some using False by (simp only: option.case if_False) blast
  qed
qed

lemma hasCyclesLoop_sound_and_total:
  "finite U \<Longrightarrow> \<forall>u. set (neighborsOf g u) \<subseteq> U \<Longrightarrow> jn_id ` set nodes \<subseteq> U
     \<Longrightarrow> traversalInv g U (V, {}) \<Longrightarrow> card U \<le> depth
     \<Longrightarrow> startsPost g U V nodes (hasCyclesLoop depth g nodes (V, {}))"
proof (induction nodes arbitrary: V)
  case Nil
  have "V \<subseteq> V \<and> jn_id ` set [] \<subseteq> V \<and> traversalInv g U (V, {})"
    using Nil.prems(4) by simp
  then show ?case
    unfolding startsPost_def hasCyclesLoop.simps by (simp only: option.case if_False) blast
next
  case (Cons node nodes)
  have ids: "jn_id ` set nodes \<subseteq> U" and idU: "jn_id node \<in> U"
    using Cons.prems(3) by simp_all
  show ?case
  proof (cases "jn_id node \<in> V")
    case True
    have "startsPost g U V nodes (hasCyclesLoop depth g nodes (V, {}))"
      using Cons.prems(1,2) ids Cons.prems(4,5) by (rule Cons.IH)
    then have "startsPost g U V (node # nodes) (hasCyclesLoop depth g nodes (V, {}))"
      using True by (rule startsPost_skip)
    with True show ?thesis by simp
  next
    case False
    have "card (U - V) \<le> card U"
      using Cons.prems(1) by (intro card_mono) auto
    then have "dfsPre g U (jn_id node) (V, {}) depth"
      using Cons.prems(4,5) idU False by (simp add: dfsPre_def)
    with Cons.prems(1,2)
    have post: "dfsPost g U (jn_id node) (V, {}) (dfs depth g (jn_id node) (V, {}))"
      by (rule dfs_sound_and_total(1))
    then obtain found st' where r: "dfs depth g (jn_id node) (V, {}) = Some (found, st')"
      by (cases "dfs depth g (jn_id node) (V, {})") (auto simp: dfsPost_def)
    show ?thesis
    proof (cases found)
      case True
      with post r have "cyclic (graphEdges g)" by (simp add: dfsPost_def)
      moreover have "hasCyclesLoop depth g (node # nodes) (V, {}) = Some True"
        using False r True by simp
      ultimately show ?thesis by (simp add: startsPost_def)
    next
      case nf: False
      from post r nf have "snd st' = {}" and sub: "V \<subseteq> fst st'"
        and mem: "jn_id node \<in> fst st'" and "traversalInv g U st'"
        by (simp_all add: dfsPost_def)
      then have st': "st' = (fst st', {})" and inv: "traversalInv g U (fst st', {})"
        by (cases st'; simp)+
      have "startsPost g U (fst st') nodes (hasCyclesLoop depth g nodes (fst st', {}))"
        using Cons.prems(1,2) ids inv Cons.prems(5) by (rule Cons.IH)
      then have "startsPost g U V (node # nodes) (hasCyclesLoop depth g nodes (fst st', {}))"
        using sub mem by (rule startsPost_after)
      moreover have "hasCyclesLoop depth g (node # nodes) (V, {}) =
          hasCyclesLoop depth g nodes (fst st', {})"
        using False r nf st' by simp
      ultimately show ?thesis by simp
    qed
  qed
qed

lemma buildGraph_other:
  "u \<notin> jn_id ` set nodes \<Longrightarrow> buildGraph nodes m u = m u"
  by (induction nodes arbitrary: m) auto

lemma buildGraph_dom: "dom (buildGraph nodes m) = dom m \<union> jn_id ` set nodes"
  by (induction nodes arbitrary: m) auto

lemma buildGraph_value:
  "buildGraph nodes m u = Some ns \<Longrightarrow>
     m u = Some ns \<or> (\<exists>n\<in>set nodes. jn_id n = u \<and> ns = targetsOf (jn_connections n))"
proof (induction nodes arbitrary: m)
  case Nil
  then show ?case by simp
next
  case (Cons x xs)
  let ?m = "m(jn_id x \<mapsto> targetsOf (jn_connections x))"
  from Cons.prems have "buildGraph xs ?m u = Some ns" by simp
  from Cons.IH [OF this]
  consider "?m u = Some ns"
    | "\<exists>n\<in>set xs. jn_id n = u \<and> ns = targetsOf (jn_connections n)"
    by blast
  then show ?case
  proof cases
    case 1
    then show ?thesis by (cases "u = jn_id x") auto
  next
    case 2
    then show ?thesis by auto
  qed
qed

lemma buildGraph_distinct:
  "distinct (map jn_id nodes) \<Longrightarrow> n \<in> set nodes \<Longrightarrow>
     buildGraph nodes m (jn_id n) = Some (targetsOf (jn_connections n))"
proof (induction nodes arbitrary: m)
  case Nil
  then show ?case by simp
next
  case (Cons x xs)
  show ?case
  proof (cases "n = x")
    case True
    with Cons.prems(1) show ?thesis by (simp add: buildGraph_other)
  next
    case False
    with Cons show ?thesis by simp
  qed
qed

lemma set_targetsOf:
  "set (targetsOf cs) = {t. t \<noteq> [] \<and> (\<exists>c\<in>set cs. target_node_id c = Some t)}"
  by (induction cs) (auto split: option.splits)

lemma neighbors_in_allIds:
  "set (neighborsOf (buildGraph nodes Map.empty) u) \<subseteq> allIds nodes"
proof (cases "buildGraph nodes Map.empty u")
  case None
  then show ?thesis by (simp add: neighborsOf_def)
next
  case (Some ns)
  from buildGraph_value [OF this] obtain n where "n \<in> set nodes"
    and "ns = targetsOf (jn_connections n)"
    by auto
  with Some show ?thesis by (auto simp: neighborsOf_def allIds_def)
qed

lemma card_allIds: "card (allIds nodes) \<le> idCount nodes"
proof -
  have "card (allIds nodes) \<le> card (set (map jn_id nodes))
          + card (set (concat (map (\<lambda>n. targetsOf (jn_connections n)) nodes)))"
    unfolding allIds_def by (rule card_Un_le)
  also have "\<dots> \<le> length (map jn_id nodes)
          + length (concat (map (\<lambda>n. targetsOf (jn_connections n)) nodes))"
    by (intro add_mono card_length)
  finally show ?thesis by (simp add: idCount_def)
qed

lemma hasCycles_decides:
  assumes "idCount nodes \<le> depth"
  shows "hasCycles depth nodes = Some (cyclic (graphEdges (buildGraph nodes Map.empty)))"
proof -
  let ?g = "buildGraph nodes Map.empty"
  let ?U = "allIds nodes"
  have fin: "finite ?U" by (simp add: allIds_def)
  have closed: "\<forall>u. set (neighborsOf ?g u) \<subseteq> ?U" by (simp add: neighbors_in_allIds)
  have ids: "jn_id ` set nodes \<subseteq> ?U" by (auto simp: allIds_def)
  have inv0: "traversalInv ?g ?U ({}, {})" by (simp add: traversalInv_def finished_def)
  have card: "card ?U \<le> depth" using card_allIds [of nodes] assms by simp
  note post = hasCyclesLoop_sound_and_total [OF fin closed ids inv0 card]
  show ?thesis
  proof (cases "hasCyclesLoop depth ?g nodes ({}, {})")
    case None
    with post show ?thesis by (simp add: startsPost_def)
  next
    case (Some found)
    show ?thesis
    proof (cases found)
      case True
      with post Some show ?thesis by (simp add: hasCycles_def startsPost_def)
    next
      case False
      with post Some obtain V' where all: "jn_id ` set nodes \<subseteq> V'"
        and inv: "traversalInv ?g ?U (V', {})"
        by (auto simp: startsPost_def)
      have "\<not> cyclic (graphEdges ?g)"
      proof
        assume "cyclic (graphEdges ?g)"
        then obtain u where cyc: "(u, u) \<in> (graphEdges ?g)\<^sup>+" by (auto simp: cyclic_def)
        then obtain v where "(u, v) \<in> graphEdges ?g" by (meson tranclD)
        then have "v \<in> set (neighborsOf ?g u)"
          by (simp add: graphEdges_def)
        then have "?g u \<noteq> None"
          by (cases "?g u") (simp_all add: neighborsOf_def)
        then have "u \<in> dom ?g" by auto
        then have "u \<in> V'" using all by (auto simp: buildGraph_dom)
        with inv cyc show False by (simp add: traversalInv_def finished_def)
      qed
      with Some False show ?thesis by (simp add: hasCycles_def)
    qed
  qed
qed

lemma graphEdges_journeyEdges:
  assumes "distinct (map jn_id nodes)"
      and "\<forall>n\<in>set nodes. \<forall>c\<in>set (jn_connections n). target_node_id c \<noteq> Some []"
  shows "graphEdges (buildGraph nodes Map.empty) = journeyEdges nodes"
proof (intro set_eqI iffI; clarify)
  fix u v assume "(u, v) \<in> graphEdges (buildGraph nodes Map.empty)"
  then have "v \<in> set (neighborsOf (buildGraph nodes Map.empty) u)"
    by (simp add: graphEdges_def)
  then obtain ns where g: "buildGraph nodes Map.empty u = Some ns" and v: "v \<in> set ns"
    by (cases "buildGraph nodes Map.empty u") (simp_all add: neighborsOf_def)
  from buildGraph_value [OF g] obtain n where "n \<in> set nodes" "jn_id n = u"
    "ns = targetsOf (jn_connections n)"
    by auto
  with v show "(u, v) \<in> journeyEdges nodes"
    by (auto simp: journeyEdges_def set_targetsOf)
next
  fix u v assume "(u, v) \<in> journeyEdges nodes"
  then obtain n c where n: "n \<in> set nodes" and c: "c \<in> set (jn_connections n)"
    and u: "u = jn_id n" and t: "target_node_id c = Some v"
    by (auto simp: journeyEdges_def)
  from assms(2) n c t have "v \<noteq> []" by auto
  with c t have "v \<in> set (targetsOf (jn_connections n))"
    by (auto simp: set_targetsOf)
  with buildGraph_distinct [OF assms(1) n, of Map.empty] u
  show "(u, v) \<in> graphEdges (buildGraph nodes Map.empty)"
    by (simp add: graphEdges_def neighborsOf_def)
qed

lemma nodeLoop_no_cycle_finding:
  "cycleFinding \<notin> set errs \<Longrightarrow> cycleFinding \<notin> set (fst (nodeLoop nodes (errs, ids)))"
  by (induction nodes arbitrary: errs ids) (auto simp: cycleFinding_def)

text \<open>
  C6 (amended). For a journey whose node ids are pairwise different and none of whose
  connections has an empty \<^verbatim>\<open>target_node_id\<close>, validation returns, given a call stack as
  deep as the journey has ids, and its findings hold the cycle finding exactly when the
  graph with an edge from each node to every \<^verbatim>\<open>target_node_id\<close> of its connections has a
  cycle. Connections with a \<^verbatim>\<open>target_journey\<close> only are no edges of that graph.
\<close>

theorem journey_cycle_finding:
  assumes "distinct (map jn_id (j_nodes journey))"
      and "\<forall>n\<in>set (j_nodes journey). \<forall>c\<in>set (jn_connections n). target_node_id c \<noteq> Some []"
      and "idCount (j_nodes journey) \<le> depth"
  shows "\<exists>errors. validateJourney depth journey = Some errors \<and>
           (cycleFinding \<in> set errors \<longleftrightarrow> cyclic (journeyEdges (j_nodes journey)))"
proof -
  let ?errors = "(if j_id journey = [] then [''Journey ID is required''] else []) @
            (if j_key journey = [] then [''Journey key is required''] else []) @
            (if j_name journey = [] then [''Journey name is required''] else []) @
            (if j_projects journey = [] then [''At least one project required''] else []) @
            (if j_nodes journey = [] then [''At least one node required''] else [])"
  have "cycleFinding \<notin> set ?errors"
    by (simp add: cycleFinding_def)
  then have other: "cycleFinding \<notin> set (fst (nodeLoop (j_nodes journey) (?errors, {})))"
    by (rule nodeLoop_no_cycle_finding)
  have "hasCycles depth (j_nodes journey) = Some (cyclic (journeyEdges (j_nodes journey)))"
    using hasCycles_decides [OF assms(3)] graphEdges_journeyEdges [OF assms(1,2)] by simp
  then show ?thesis
    using other by (simp add: validateJourney_def Let_def)
qed

lemma example_hypotheses:
  "distinct (map jn_id triangle)" "distinct (map jn_id openPath)" "distinct (map jn_id [jumpOff])"
  "\<forall>n\<in>set triangle. \<forall>c\<in>set (jn_connections n). target_node_id c \<noteq> Some []"
  "\<forall>n\<in>set openPath. \<forall>c\<in>set (jn_connections n). target_node_id c \<noteq> Some []"
  "\<forall>n\<in>set [jumpOff]. \<forall>c\<in>set (jn_connections n). target_node_id c \<noteq> Some []"
  "idCount triangle \<le> 10" "idCount openPath \<le> 10" "idCount [jumpOff] \<le> 10"
  by (simp_all add: triangle_def openPath_def jumpOff_def stage_def idCount_def)

lemma example_runs:
  "validateJourney 10 (journeyOf triangle) = Some [cycleFinding]"
  "validateJourney 10 (journeyOf openPath) = Some []"
  "validateJourney 10 (journeyOf [jumpOff]) = Some []"
  by (simp_all add: validateJourney_def hasCycles_def journeyOf_def triangle_def openPath_def
      jumpOff_def stage_def neighborsOf_def eval_nat_numeral)

theorem journey_cycle_finding_witness:
  "validateJourney 10 (journeyOf triangle) = Some [cycleFinding]
   \<and> cyclic (journeyEdges triangle)
   \<and> validateJourney 10 (journeyOf openPath) = Some []
   \<and> \<not> cyclic (journeyEdges openPath)
   \<and> validateJourney 10 (journeyOf [jumpOff]) = Some []
   \<and> \<not> cyclic (journeyEdges [jumpOff])"
  using journey_cycle_finding [of "journeyOf triangle" 10]
        journey_cycle_finding [of "journeyOf openPath" 10]
        journey_cycle_finding [of "journeyOf [jumpOff]" 10]
        example_hypotheses example_runs
  by (simp add: journeyOf_def)

text \<open>
  C6 as stated fails. Of two nodes with the id \<open>A\<close> the adjacency map keeps the
  second, so the first node's edge to \<open>A\<close> is lost and no cycle is found; and an empty
  \<^verbatim>\<open>target_node_id\<close> is dropped from the map as if it were absent.
\<close>

theorem journey_cycle_finding_counterexample:
  "cyclic (journeyEdges twiceA)
   \<and> validateJourney 10 (journeyOf twiceA) = Some [''Duplicate node ID: A'']
   \<and> cyclic (journeyEdges emptyIdLoop)
   \<and> validateJourney 10 (journeyOf emptyIdLoop) = Some [''Node ID is required'']"
proof (intro conjI)
  have "(''A'', ''A'') \<in> journeyEdges twiceA"
    by (simp add: journeyEdges_def twiceA_def stage_def)
  then show "cyclic (journeyEdges twiceA)"
    unfolding cyclic_def by blast
  have "([], []) \<in> journeyEdges emptyIdLoop"
    by (simp add: journeyEdges_def emptyIdLoop_def stage_def)
  then show "cyclic (journeyEdges emptyIdLoop)"
    unfolding cyclic_def by blast
  show "validateJourney 10 (journeyOf twiceA) = Some [''Duplicate node ID: A'']"
    by (simp add: validateJourney_def hasCycles_def journeyOf_def twiceA_def stage_def
        neighborsOf_def eval_nat_numeral)
  show "validateJourney 10 (journeyOf emptyIdLoop) = Some [''Node ID is required'']"
    by (simp add: validateJourney_def hasCycles_def journeyOf_def emptyIdLoop_def stage_def
        neighborsOf_def eval_nat_numeral)
qed

end
